theory Spec2Isabelle
  imports
    Complex_Main
    "HOL-Library.Char_ord"
    "HOL-Library.List_Lexorder"
    "HOL-Library.Sublist"
    "HOL-Library.Multiset"
begin

section \<open>Exceptions\<close>

text \<open>
  The exceptions the script can end with. \<open>assert\<close> raises \<open>AssertionError\<close>,
  \<open>re.match\<close> raises \<open>re.error\<close> on a malformed pattern, \<open>os.makedirs\<close>
  raises \<open>OSError\<close>, indexing a list out of range raises \<open>IndexError\<close> and a
  float division by zero raises \<open>ZeroDivisionError\<close>.
\<close>

datatype error = AssertionError | ReError | OSError | IndexError | ZeroDivisionError

section \<open>String and path functions of the Python library\<close>

text \<open>\<open>s.startswith(p)\<close> is \<^const>\<open>prefix\<close>; \<open>s.count('/')\<close> is truthy iff a slash occurs.\<close>

definition count_slash :: "string \<Rightarrow> nat" where
  "count_slash path = length (filter (\<lambda>c. c = CHR ''/'') path)"

text \<open>\<open>s.rstrip('/')\<close>.\<close>

definition rstrip_slash :: "string \<Rightarrow> string" where
  "rstrip_slash s = rev (dropWhile (\<lambda>c. c = CHR ''/'') (rev s))"

text \<open>
  \<open>posixpath.split\<close>: \<open>i = p.rfind('/') + 1; head, tail = p[:i], p[i:]\<close>; the head
  loses its trailing slashes unless it consists of slashes only.
\<close>

definition rfind_cut :: "string \<Rightarrow> string \<times> string" where
  "rfind_cut p =
     (let tail = rev (takeWhile (\<lambda>c. c \<noteq> CHR ''/'') (rev p))
      in (take (length p - length tail) p, tail))"

definition path_split :: "string \<Rightarrow> string \<times> string" where
  "path_split p =
     (let (head, tail) = rfind_cut p
      in if head \<noteq> [] \<and> (\<exists>c \<in> set head. c \<noteq> CHR ''/'')
         then (rstrip_slash head, tail) else (head, tail))"

text \<open>\<open>posixpath.dirname\<close> is the head of \<open>posixpath.split\<close>.\<close>

definition path_dirname :: "string \<Rightarrow> string" where
  "path_dirname p = fst (path_split p)"

text \<open>
  \<open>posixpath.join(a, b)\<close>: an absolute \<open>b\<close> replaces \<open>a\<close>; otherwise \<open>b\<close> is
  appended, after a slash unless \<open>a\<close> is empty or already ends in one.
\<close>

definition path_join :: "string \<Rightarrow> string \<Rightarrow> string" where
  "path_join a b =
     (if prefix ''/'' b then b
      else if a = [] \<or> last a = CHR ''/'' then a @ b
      else a @ ''/'' @ b)"

text \<open>\<open>s.split(':/')\<close>: the pieces between the occurrences of the separator, left to right.\<close>

fun split_colon_slash :: "string \<Rightarrow> string \<Rightarrow> string list" where
  "split_colon_slash acc [] = [rev acc]"
| "split_colon_slash acc [c] = [rev (c # acc)]"
| "split_colon_slash acc (c # d # ds) =
     (if c = CHR '':'' \<and> d = CHR ''/'' then rev acc # split_colon_slash [] ds
      else split_colon_slash (c # acc) (d # ds))"

text \<open>\<open>xs[1]\<close>, raising \<open>IndexError\<close> out of range.\<close>

definition index1 :: "'a list \<Rightarrow> error + 'a" where
  "index1 xs = (case xs of _ # y # _ \<Rightarrow> Inr y | _ \<Rightarrow> Inl IndexError)"

section \<open>\<open>strip_root_ext\<close>\<close>

text \<open>
  \<open>re.match('(\S*?)(\.canv)?(\.root)(\.\d*)?', path)\<close>, then \<open>assert reo\<close> and
  \<open>reo.group(1)\<close>.

  \<open>\S\<close> is any character but the six ASCII white-space characters. The first group
  is lazy: at each position the matcher first tries the rest of the pattern, and only
  when that fails lets \<open>\S\<close> take one more character. The rest of the pattern is
  \<open>(\.canv)?\<close>, tried first with and then without the text, the literal \<open>.root\<close>,
  and \<open>(\.\d*)?\<close>, which can match the empty string and so never fails. Nothing
  anchors the match at the end of the path.
\<close>

definition is_space :: "char \<Rightarrow> bool" where
  "is_space c \<longleftrightarrow> c \<in> {CHR '' '', CHR 0x09, CHR 0x0A, CHR 0x0B, CHR 0x0C, CHR 0x0D}"

definition is_digit :: "char \<Rightarrow> bool" where
  "is_digit c \<longleftrightarrow> CHR ''0'' \<le> c \<and> c \<le> CHR ''9''"

text \<open>\<open>(\.\d*)?\<close> at the start of \<open>s\<close>: greedy, and the empty match as the last resort.\<close>

definition match_num :: "string \<Rightarrow> string option" where
  "match_num s =
     (if prefix ''.'' s then Some (CHR ''.'' # takeWhile is_digit (tl s)) else Some [])"

text \<open>\<open>(\.canv)?(\.root)(\.\d*)?\<close> at the start of \<open>s\<close>.\<close>

definition match_ext :: "string \<Rightarrow> bool" where
  "match_ext s \<longleftrightarrow>
     (prefix ''.canv'' s \<and> prefix ''.root'' (drop 5 s) \<and> match_num (drop 10 s) \<noteq> None)
     \<or> (prefix ''.root'' s \<and> match_num (drop 5 s) \<noteq> None)"

fun match_lazy :: "string \<Rightarrow> string \<Rightarrow> string option" where
  "match_lazy acc s =
     (if match_ext s then Some (rev acc)
      else (case s of
              [] \<Rightarrow> None
            | c # cs \<Rightarrow> if is_space c then None else match_lazy (c # acc) cs))"

definition strip_root_ext :: "string \<Rightarrow> error + string" where
  "strip_root_ext path =
     (case match_lazy [] path of
        None \<Rightarrow> Inl AssertionError
      | Some g \<Rightarrow> Inr g)"

section \<open>The file system\<close>

text \<open>
  Modelled from the spec: the operating system and the library functions
  \<open>os.path.isdir\<close>, \<open>os.path.exists\<close>, \<open>os.mkdir\<close> and \<open>os.makedirs\<close> are not
  part of the repository. A file system is the working directory and a tree, a map from
  absolute paths, given by their components from the root, to entries; the root is the
  empty list and always a directory. Symbolic links and permissions are not modelled.
\<close>

datatype entry = Directory | RegularFile

datatype errno = EEXIST | ENOENT | ENOTDIR

record fsys =
  cwd :: "string list"
  tree :: "string list \<Rightarrow> entry option"

fun split_slash :: "string \<Rightarrow> string \<Rightarrow> string list" where
  "split_slash acc [] = [rev acc]"
| "split_slash acc (c # cs) =
     (if c = CHR ''/'' then rev acc # split_slash [] cs else split_slash (c # acc) cs)"

definition exists_at :: "(string list \<Rightarrow> entry option) \<Rightarrow> string list \<Rightarrow> bool" where
  "exists_at t k \<longleftrightarrow> k = [] \<or> t k \<noteq> None"

definition is_dir_at :: "(string list \<Rightarrow> entry option) \<Rightarrow> string list \<Rightarrow> bool" where
  "is_dir_at t k \<longleftrightarrow> k = [] \<or> t k = Some Directory"

text \<open>
  The system resolves a path through the tree, one component after the other: to go on
  from a place, the place must exist and be a directory; an empty component and \<open>.\<close>
  stay there, \<open>..\<close> goes to the parent (the root is its own parent), a name goes to the
  entry of that name, which need not exist when the name is the last component.
\<close>

fun walk_path ::
  "(string list \<Rightarrow> entry option) \<Rightarrow> string list \<Rightarrow> string list \<Rightarrow> errno + string list" where
  "walk_path t cur [] = Inr cur"
| "walk_path t cur (c # cs) =
     (if \<not> exists_at t cur then Inl ENOENT
      else if \<not> is_dir_at t cur then Inl ENOTDIR
      else if c = [] \<or> c = ''.'' then walk_path t cur cs
      else if c = ''..'' then walk_path t (butlast cur) cs
      else walk_path t (cur @ [c]) cs)"

definition start_of :: "fsys \<Rightarrow> string \<Rightarrow> string list" where
  "start_of fs p = (if prefix ''/'' p then [] else cwd fs)"

definition resolve :: "fsys \<Rightarrow> string \<Rightarrow> errno + string list" where
  "resolve fs p =
     (if p = [] then Inl ENOENT else walk_path (tree fs) (start_of fs p) (split_slash [] p))"

text \<open>\<open>os.path.exists\<close> and \<open>os.path.isdir\<close>: false when the path does not resolve.\<close>

definition path_exists :: "fsys \<Rightarrow> string \<Rightarrow> bool" where
  "path_exists fs p \<longleftrightarrow>
     (case resolve fs p of Inl e \<Rightarrow> False | Inr k \<Rightarrow> exists_at (tree fs) k)"

definition isdir :: "fsys \<Rightarrow> string \<Rightarrow> bool" where
  "isdir fs p \<longleftrightarrow>
     (case resolve fs p of Inl e \<Rightarrow> False | Inr k \<Rightarrow> is_dir_at (tree fs) k)"

text \<open>
  \<open>os.mkdir\<close>: the slashes at the end of the path do not count; the path must resolve,
  to a place where nothing is, through a name as its last component. The result is the
  error, if any, and the file system after the call.
\<close>

definition strip_trailing :: "string list \<Rightarrow> string list" where
  "strip_trailing cs = rev (dropWhile (\<lambda>c. c = []) (rev cs))"

definition mkdir :: "fsys \<Rightarrow> string \<Rightarrow> errno option \<times> fsys" where
  "mkdir fs p =
     (let comps = strip_trailing (split_slash [] p) in
      if p = [] then (Some ENOENT, fs)
      else (case walk_path (tree fs) (start_of fs p) comps of
              Inl e \<Rightarrow> (Some e, fs)
            | Inr k \<Rightarrow>
                if exists_at (tree fs) k \<or> comps = [] \<or> last comps = ''.'' \<or> last comps = ''..''
                then (Some EEXIST, fs)
                else (None, fs\<lparr>tree := (tree fs)(k \<mapsto> Directory)\<rparr>)))"

text \<open>
  \<open>os.makedirs\<close> of Python 2.7:
  \<^verbatim>\<open>
  head, tail = path.split(name)
  if not tail:
      head, tail = path.split(head)
  if head and tail and not path.exists(head):
      try:
          makedirs(head, mode)
      except OSError, e:
          if e.errno != errno.EEXIST:
              raise
      if tail == curdir:
          return
  mkdir(name, mode)
  \<close>
\<close>

definition split_tail :: "string \<Rightarrow> string \<times> string" where
  "split_tail name =
     (let (head, tail) = path_split name in
      if tail = [] then path_split head else (head, tail))"

lemma rstrip_slash_length: "length (rstrip_slash s) \<le> length s"
proof -
  have "length (dropWhile (\<lambda>c. c = CHR ''/'') (rev s)) \<le> length (rev s)"
    by (rule length_dropWhile_le)
  then show ?thesis
    by (simp add: rstrip_slash_def)
qed

lemma rfind_cut_length: "length (fst (rfind_cut p)) + length (snd (rfind_cut p)) \<le> length p"
proof -
  have "length (takeWhile (\<lambda>c. c \<noteq> CHR ''/'') (rev p)) \<le> length (rev p)"
    by (rule length_takeWhile_le)
  then show ?thesis
    by (simp add: rfind_cut_def Let_def)
qed

lemma path_split_length:
  "length (fst (path_split p)) + length (snd (path_split p)) \<le> length p"
proof -
  obtain h t where cut: "rfind_cut p = (h, t)"
    by (cases "rfind_cut p")
  with rfind_cut_length [of p] have 1: "length h + length t \<le> length p"
    by simp
  have 2: "length (rstrip_slash h) \<le> length h"
    by (rule rstrip_slash_length)
  show ?thesis
  proof (cases "h \<noteq> [] \<and> (\<exists>c \<in> set h. c \<noteq> CHR ''/'')")
    case True
    with cut have "path_split p = (rstrip_slash h, t)"
      by (simp add: path_split_def)
    with 1 2 show ?thesis by simp
  next
    case False
    with cut have "path_split p = (h, t)"
      by (auto simp: path_split_def)
    with 1 show ?thesis by simp
  qed
qed

lemma split_tail_eq:
  "split_tail name =
     (if snd (path_split name) = [] then path_split (fst (path_split name))
      else path_split name)"
  by (simp add: split_tail_def split: prod.splits)

lemma split_tail_length:
  assumes "snd (split_tail name) \<noteq> []"
  shows "length (fst (split_tail name)) < length name"
proof (cases "snd (path_split name) = []")
  case True
  with assms have "snd (path_split (fst (path_split name))) \<noteq> []"
    by (simp add: split_tail_eq)
  moreover have "length (fst (path_split (fst (path_split name))))
      + length (snd (path_split (fst (path_split name)))) \<le> length (fst (path_split name))"
    by (rule path_split_length)
  moreover have "length (fst (path_split name)) + length (snd (path_split name)) \<le> length name"
    by (rule path_split_length)
  ultimately have "length (fst (path_split (fst (path_split name)))) < length name"
    by (cases "snd (path_split (fst (path_split name)))") simp_all
  with True show ?thesis
    by (simp add: split_tail_eq)
next
  case False
  moreover have "length (fst (path_split name)) + length (snd (path_split name)) \<le> length name"
    by (rule path_split_length)
  ultimately have "length (fst (path_split name)) < length name"
    by (cases "snd (path_split name)") simp_all
  with False show ?thesis
    by (simp add: split_tail_eq)
qed

function os_makedirs :: "fsys \<Rightarrow> string \<Rightarrow> errno option \<times> fsys" where
  "os_makedirs fs name =
     (if fst (split_tail name) \<noteq> [] \<and> snd (split_tail name) \<noteq> []
         \<and> \<not> path_exists fs (fst (split_tail name))
      then (case os_makedirs fs (fst (split_tail name)) of
              (r, fs1) \<Rightarrow>
                if r \<noteq> None \<and> r \<noteq> Some EEXIST then (r, fs1)
                else if snd (split_tail name) = ''.'' then (None, fs1)
                else mkdir fs1 name)
      else mkdir fs name)"
  by pat_completeness auto
termination
  by (relation "measure (\<lambda>(fs, name). length name)") (simp_all add: split_tail_length)

declare os_makedirs.simps [simp del]

text \<open>An error of \<open>os.makedirs\<close> reaches the caller as \<open>OSError\<close>.\<close>

definition makedirs :: "fsys \<Rightarrow> string \<Rightarrow> error + fsys" where
  "makedirs fs name =
     (case os_makedirs fs name of
        (None, fs') \<Rightarrow> Inr fs'
      | (Some e, fs') \<Rightarrow> Inl OSError)"

section \<open>\<open>make_dir_if_needed\<close>\<close>

definition make_dir_if_needed :: "fsys \<Rightarrow> string \<Rightarrow> error + fsys" where
  "make_dir_if_needed fs path =
     (if count_slash path \<noteq> 0 then
        (let dirname = fst (path_split path) in
         if \<not> isdir fs dirname then makedirs fs dirname else Inr fs)
      else Inr fs)"

section \<open>The regular-expression library\<close>

text \<open>
  Python's \<open>re\<close> module is taken as a parameter: \<open>compile\<close> gives \<open>None\<close> for a
  malformed pattern (where \<open>re\<close> raises \<open>re.error\<close>) and otherwise the language of
  the pattern, the strings it matches from their first to their last character.
  \<open>re.match(pattern, s)\<close> compiles the pattern and succeeds iff some prefix of \<open>s\<close>
  is in its language.
\<close>

type_synonym regex_lib = "string \<Rightarrow> (string \<Rightarrow> bool) option"

definition re_match :: "regex_lib \<Rightarrow> string \<Rightarrow> string \<Rightarrow> error + bool" where
  "re_match compile pattern s =
     (case compile pattern of
        None \<Rightarrow> Inl ReError
      | Some lang \<Rightarrow> Inr (list_ex lang (prefixes s)))"

text \<open>
  A small library for the examples: it knows the literal patterns, with an optional
  leading \<open>^\<close>, and takes a pattern with a parenthesis in it as malformed.
\<close>

definition literal_lib :: regex_lib where
  "literal_lib pattern =
     (if CHR ''('' \<in> set pattern \<or> CHR '')'' \<in> set pattern then None
      else Some (\<lambda>s. s = (if prefix ''^'' pattern then tl pattern else pattern)))"

section \<open>The container\<close>

text \<open>
  Modelled from the spec: the ROOT library is not part of the repository. A directory
  holds its keys in the order \<open>GetListOfKeys\<close> gives them; \<open>Get\<close> finds an object
  by name, the first key of that name; \<open>GetPath\<close> is the file name, \<open>:/\<close> and the
  names of the directories from the top, joined by slashes
  (\<open>'file_name.root:/some/path'\<close> in the words of \<open>walk\<close>).
\<close>

datatype tobject =
    TDirectory "(string \<times> tobject) list"
  | TCanvas string
  | TObject string

record tdirectory =
  tfile :: string
  tpath :: "string list"
  tkeys :: "(string \<times> tobject) list"

fun join_slash :: "string list \<Rightarrow> string" where
  "join_slash [] = []"
| "join_slash [x] = x"
| "join_slash (x # y # ys) = x @ ''/'' @ join_slash (y # ys)"

definition GetPath :: "tdirectory \<Rightarrow> string" where
  "GetPath tp = tfile tp @ '':/'' @ join_slash (tpath tp)"

definition GetListOfKeys :: "tdirectory \<Rightarrow> string list" where
  "GetListOfKeys tp = map fst (tkeys tp)"

definition Get :: "tdirectory \<Rightarrow> string \<Rightarrow> tobject option" where
  "Get tp k = map_of (tkeys tp) k"

text \<open>\<open>isinstance(d, ROOT.TDirectory)\<close> and \<open>isinstance(obj, ROOT.TCanvas)\<close>.\<close>

fun is_TDirectory :: "tobject option \<Rightarrow> bool" where
  "is_TDirectory (Some (TDirectory ks)) = True"
| "is_TDirectory _ = False"

fun is_TCanvas :: "tobject option \<Rightarrow> bool" where
  "is_TCanvas (Some (TCanvas n)) = True"
| "is_TCanvas _ = False"

text \<open>The handle of the directory that \<open>top.Get(dn)\<close> returns.\<close>

definition subdir :: "tdirectory \<Rightarrow> string \<Rightarrow> (string \<times> tobject) list \<Rightarrow> tdirectory" where
  "subdir tp dn ks = \<lparr>tfile = tfile tp, tpath = tpath tp @ [dn], tkeys = ks\<rparr>"

text \<open>\<open>ROOT.TFile(path)\<close>: the top directory of the file, whose keys the caller gives.\<close>

definition TFile :: "string \<Rightarrow> (string \<times> tobject) list \<Rightarrow> tdirectory" where
  "TFile path ks = \<lparr>tfile = path, tpath = [], tkeys = ks\<rparr>"

section \<open>\<open>walk\<close>\<close>

type_synonym visit = "string \<times> string list \<times> string list \<times> tdirectory"

definition dirnames_of :: "tdirectory \<Rightarrow> string list" where
  "dirnames_of tp = sort (filter (\<lambda>k. is_TDirectory (Get tp k)) (GetListOfKeys tp))"

definition filenames_of :: "tdirectory \<Rightarrow> string list" where
  "filenames_of tp = sort (filter (\<lambda>k. \<not> is_TDirectory (Get tp k)) (GetListOfKeys tp))"

definition visit_of :: "tdirectory \<Rightarrow> visit" where
  "visit_of tp = (GetPath tp, dirnames_of tp, filenames_of tp, tp)"

lemma size_map_of:
  "map_of ks k = Some v \<Longrightarrow> size v < Suc (size_list (size_prod (\<lambda>_. 0) size) ks)"
  by (induction ks) (auto split: if_splits)

function walk :: "bool \<Rightarrow> tdirectory \<Rightarrow> visit list" where
  "walk topdown tp =
     (if topdown then [visit_of tp] else [])
     @ concat (map (\<lambda>dn. case Get tp dn of
                            Some (TDirectory ks) \<Rightarrow> walk topdown (subdir tp dn ks)
                          | _ \<Rightarrow> [])
                 (dirnames_of tp))
     @ (if topdown then [] else [visit_of tp])"
  by pat_completeness auto
termination
proof (relation "measure (\<lambda>(topdown, tp). size_list (size_prod (\<lambda>_. 0) size) (tkeys tp))")
  show "wf (measure (\<lambda>(topdown, tp). size_list (size_prod (\<lambda>_. 0) size) (tkeys tp)))"
    by simp
next
  fix topdown :: bool and tp :: tdirectory and dn :: string
    and x2 :: tobject and ks :: "(string \<times> tobject) list"
  assume "Get tp dn = Some x2" and "x2 = TDirectory ks"
  then have "map_of (tkeys tp) dn = Some (TDirectory ks)"
    by (simp add: Get_def)
  from size_map_of [OF this]
  show "((topdown, subdir tp dn ks), (topdown, tp))
        \<in> measure (\<lambda>(topdown, tp). size_list (size_prod (\<lambda>_. 0) size) (tkeys tp))"
    by (simp add: subdir_def)
qed

declare walk.simps [simp del]

section \<open>The renderer and the state of a run\<close>

text \<open>
  What a run changes: the file system, the list of the render requests made so far
  (the canvas and the file name given to \<open>SaveAs\<close>) and the lines printed.
\<close>

record world =
  fs :: fsys
  saved :: "(tobject \<times> string) list"
  stdout :: "string list"

text \<open>
  Modelled from the spec: \<open>canvas.SaveAs(filename)\<close> belongs to ROOT. The request is
  recorded; the file appears when the file name resolves, through a name as its last
  component, to a place where nothing is. ROOT reports a file it cannot write without
  raising.
\<close>

definition create_file :: "fsys \<Rightarrow> string \<Rightarrow> fsys" where
  "create_file fsy p =
     (let comps = split_slash [] p in
      if p = [] then fsy
      else (case walk_path (tree fsy) (start_of fsy p) comps of
              Inl e \<Rightarrow> fsy
            | Inr k \<Rightarrow>
                if exists_at (tree fsy) k \<or> last comps = [] \<or> last comps = ''.''
                   \<or> last comps = ''..''
                then fsy
                else fsy\<lparr>tree := (tree fsy)(k \<mapsto> RegularFile)\<rparr>))"

definition SaveAs :: "world \<Rightarrow> tobject \<Rightarrow> string \<Rightarrow> world" where
  "SaveAs w canvas filename =
     w\<lparr>fs := create_file (fs w) filename, saved := saved w @ [(canvas, filename)]\<rparr>"

definition print :: "world \<Rightarrow> string \<Rightarrow> world" where
  "print w line = w\<lparr>stdout := stdout w @ [line]\<rparr>"

text \<open>A \<open>for\<close> loop whose body can raise: the first exception ends the loop.\<close>

fun for_loop :: "('a \<Rightarrow> 's \<Rightarrow> error + 's) \<Rightarrow> 'a list \<Rightarrow> 's \<Rightarrow> error + 's" where
  "for_loop body [] s = Inr s"
| "for_loop body (x # xs) s =
     (case body x s of Inl e \<Rightarrow> Inl e | Inr s' \<Rightarrow> for_loop body xs s')"

section \<open>\<open>HighSlideRootFileIndex\<close>\<close>

record index =
  dirname :: string
  previous_level :: nat
  pwd :: "string option"

definition init_index :: "world \<Rightarrow> string \<Rightarrow> error + index \<times> world" where
  "init_index w name =
     (case make_dir_if_needed (fs w) name of
        Inl e \<Rightarrow> Inl e
      | Inr fs' \<Rightarrow>
          Inr (\<lparr>dirname = path_dirname name, previous_level = 0, pwd = None\<rparr>,
               w\<lparr>fs := fs'\<rparr>))"

definition write_canvas :: "world \<Rightarrow> tobject \<Rightarrow> string \<Rightarrow> error + world" where
  "write_canvas w canvas basepath =
     (case make_dir_if_needed (fs w) basepath of
        Inl e \<Rightarrow> Inl e
      | Inr fs' \<Rightarrow>
          (let eps = basepath @ ''.eps'';
               png = basepath @ ''.png''
           in Inr (SaveAs (w\<lparr>fs := fs'\<rparr>) canvas eps)))"

text \<open>
  The test of lines 133 and 134, \<open>if pattern and not re.match(pattern, root_key_path):
  continue\<close>: the result says whether the object goes on to be rendered. An empty
  pattern is falsy and \<open>re.match\<close> is not called.
\<close>

definition object_filter :: "regex_lib \<Rightarrow> string \<Rightarrow> string \<Rightarrow> error + bool" where
  "object_filter lib pattern root_key_path =
     (if pattern \<noteq> [] then re_match lib pattern root_key_path else Inr True)"

text \<open>The body of the inner loop of \<open>write_root_file\<close>, for one key.\<close>

definition key_body ::
  "regex_lib \<Rightarrow> index \<Rightarrow> string \<Rightarrow> string \<Rightarrow> tdirectory \<Rightarrow> string
     \<Rightarrow> nat \<times> world \<Rightarrow> error + nat \<times> world" where
  "key_body lib self pattern dirpath tdir key s =
     (case s of (n_plots, w) \<Rightarrow>
        (case Get tdir key of
           Some (TCanvas nm) \<Rightarrow>
             (case index1 (split_colon_slash [] dirpath) of
                Inl e \<Rightarrow> Inl e
              | Inr root_dir_path \<Rightarrow>
                  (let root_key_path = path_join root_dir_path key in
                   case object_filter lib pattern root_key_path of
                     Inl e \<Rightarrow> Inl e
                   | Inr False \<Rightarrow> Inr (n_plots, w)
                   | Inr True \<Rightarrow>
                       (let w1 = print w (path_join dirpath key);
                            full_path = path_join (dirname self) root_key_path
                        in case write_canvas w1 (TCanvas nm) full_path of
                             Inl e \<Rightarrow> Inl e
                           | Inr w2 \<Rightarrow> Inr (n_plots + 1, w2))))
         | _ \<Rightarrow> Inr (n_plots, w)))"

definition visit_body ::
  "regex_lib \<Rightarrow> index \<Rightarrow> string \<Rightarrow> visit \<Rightarrow> nat \<times> world \<Rightarrow> error + nat \<times> world" where
  "visit_body lib self pattern v s =
     (case v of (dirpath, dirnames, filenames, tdir) \<Rightarrow>
        for_loop (key_body lib self pattern dirpath tdir) filenames s)"

definition write_root_file ::
  "regex_lib \<Rightarrow> index \<Rightarrow> world \<Rightarrow> tdirectory \<Rightarrow> string \<Rightarrow> error + nat \<times> world" where
  "write_root_file lib self w rootfile pattern =
     for_loop (visit_body lib self pattern) (walk True rootfile) (0, w)"

section \<open>\<open>main\<close>\<close>

text \<open>
  The summary of lines 109 to 113. The two readings of the clock are real numbers here;
  the rounding of the floating-point quotient is not modelled, the exception of a
  division by zero is.
\<close>

definition avg_rate :: "nat \<Rightarrow> real \<Rightarrow> real \<Rightarrow> error + real" where
  "avg_rate n_plots t_start t_stop =
     (if t_stop - t_start = 0 then Inl ZeroDivisionError
      else Inr (real n_plots / (t_stop - t_start)))"

text \<open>The body of the loop over the input files; \<open>files\<close> gives the keys of each.\<close>

definition path_body ::
  "regex_lib \<Rightarrow> (string \<Rightarrow> (string \<times> tobject) list) \<Rightarrow> string \<Rightarrow> string
     \<Rightarrow> nat \<times> world \<Rightarrow> error + nat \<times> world" where
  "path_body lib files pattern path s =
     (case s of (n_plots, w) \<Rightarrow>
        (case strip_root_ext path of
           Inl e \<Rightarrow> Inl e
         | Inr path_wo_ext \<Rightarrow>
             (let name = path_join path_wo_ext ''index.html'' in
              case init_index w name of
                Inl e \<Rightarrow> Inl e
              | Inr (self, w1) \<Rightarrow>
                  (case write_root_file lib self w1 (TFile path (files path)) pattern of
                     Inl e \<Rightarrow> Inl e
                   | Inr (k, w2) \<Rightarrow> Inr (n_plots + k, w2)))))"

definition main ::
  "regex_lib \<Rightarrow> (string \<Rightarrow> (string \<times> tobject) list) \<Rightarrow> world \<Rightarrow> string \<Rightarrow> string list
     \<Rightarrow> real \<Rightarrow> real \<Rightarrow> error + nat \<times> real \<times> world" where
  "main lib files w pattern args t_start t_stop =
     (if \<not> length args > 0 then Inl AssertionError
      else (case for_loop (path_body lib files pattern) args (0, w) of
              Inl e \<Rightarrow> Inl e
            | Inr (n_plots, w') \<Rightarrow>
                (case avg_rate n_plots t_start t_stop of
                   Inl e \<Rightarrow> Inl e
                 | Inr rate \<Rightarrow> Inr (n_plots, rate, w'))))"

section \<open>Notions used to state the properties\<close>

text \<open>What \<open>walk\<close> yields below one child group.\<close>

definition walk_child :: "bool \<Rightarrow> tdirectory \<Rightarrow> string \<Rightarrow> visit list" where
  "walk_child topdown tp dn =
     (case Get tp dn of Some (TDirectory ks) \<Rightarrow> walk topdown (subdir tp dn ks) | _ \<Rightarrow> [])"



text \<open>
  The groups of a container are the top directory and every directory stored under a
  key of a group. Those that \<open>walk\<close> can get to are the top directory and every
  directory that \<open>Get\<close> returns for a key of one of them. Where the keys of every
  directory have distinct names, the two are the same.
\<close>

inductive in_hierarchy :: "tdirectory \<Rightarrow> tdirectory \<Rightarrow> bool" for tp where
  hier_top: "in_hierarchy tp tp"
| hier_sub: "in_hierarchy tp d \<Longrightarrow> (k, TDirectory ks) \<in> set (tkeys d)
     \<Longrightarrow> in_hierarchy tp (subdir d k ks)"

primrec distinct_keys :: "tobject \<Rightarrow> bool" where
  "distinct_keys (TDirectory ks) \<longleftrightarrow>
     distinct (map fst ks) \<and> list_all (\<lambda>(k, ok). ok) (map (map_prod id distinct_keys) ks)"
| "distinct_keys (TCanvas n) \<longleftrightarrow> True"
| "distinct_keys (TObject n) \<longleftrightarrow> True"

text \<open>The directories that \<open>walk\<close> can get to.\<close>

inductive reachable :: "tdirectory \<Rightarrow> tdirectory \<Rightarrow> bool" for tp where
  reach_top: "reachable tp tp"
| reach_sub: "reachable tp d \<Longrightarrow> k \<in> set (GetListOfKeys d) \<Longrightarrow> Get d k = Some (TDirectory ks)
     \<Longrightarrow> reachable tp (subdir d k ks)"

text \<open>
  The test of lines 131 to 134 turns the object under \<open>key\<close> away: the directory
  path splits and the filter answers no.
\<close>

definition rejected :: "regex_lib \<Rightarrow> string \<Rightarrow> string \<Rightarrow> string \<Rightarrow> bool" where
  "rejected lib pattern dirpath key \<longleftrightarrow>
     (case index1 (split_colon_slash [] dirpath) of
        Inl e \<Rightarrow> False
      | Inr root_dir_path \<Rightarrow> object_filter lib pattern (path_join root_dir_path key) = Inr False)"

text \<open>The filter turns away every canvas of a record of \<open>walk\<close>.\<close>

definition all_rejected :: "regex_lib \<Rightarrow> string \<Rightarrow> visit \<Rightarrow> bool" where
  "all_rejected lib pattern v \<longleftrightarrow>
     (case v of (dirpath, dirnames, filenames, tdir) \<Rightarrow>
        list_all (\<lambda>key. is_TCanvas (Get tdir key) \<longrightarrow> rejected lib pattern dirpath key) filenames)"

text \<open>Some key that \<open>write_root_file\<close> looks at resolves to a canvas.\<close>

definition has_canvas :: "tdirectory \<Rightarrow> bool" where
  "has_canvas rootfile \<longleftrightarrow>
     list_ex (\<lambda>(dirpath, dirnames, filenames, tdir).
                list_ex (\<lambda>key. is_TCanvas (Get tdir key)) filenames)
       (walk True rootfile)"

text \<open>
  The key paths of the canvases of a container: the names of the keys from the top down
  to each canvas. Joined by slashes a key path is the full path of the object, and joined
  to the directory of the index it is the output base path of the object.
\<close>

primrec canvases :: "tobject \<Rightarrow> string list list" where
  "canvases (TDirectory ks) =
     concat (map (\<lambda>(k, kps). map ((#) k) kps) (map (map_prod id canvases) ks))"
| "canvases (TCanvas n) = [[]]"
| "canvases (TObject n) = []"

definition base_of :: "index \<Rightarrow> string list \<Rightarrow> string" where
  "base_of self kp = path_join (dirname self) (join_slash kp)"

text \<open>The filter accepts the full path of the object at a key path.\<close>

definition accepted :: "regex_lib \<Rightarrow> string \<Rightarrow> string list \<Rightarrow> bool" where
  "accepted lib pattern kp \<longleftrightarrow> object_filter lib pattern (join_slash kp) = Inr True"

text \<open>
  The containers in which full paths name objects: in every directory the keys have
  distinct names, no name is empty or has a slash in it, and no name of a directory ends
  in a colon. A file path must not contain \<open>:/\<close>.
\<close>

definition good_name :: "string \<Rightarrow> bool" where
  "good_name k \<longleftrightarrow> k \<noteq> [] \<and> CHR ''/'' \<notin> set k"

definition good_dir_name :: "string \<Rightarrow> bool" where
  "good_dir_name k \<longleftrightarrow> good_name k \<and> last k \<noteq> CHR '':''"

primrec well_named :: "tobject \<Rightarrow> bool" where
  "well_named (TDirectory ks) \<longleftrightarrow>
     distinct (map fst ks)
     \<and> list_all (\<lambda>(k, v). good_name k \<and> (is_TDirectory (Some v) \<longrightarrow> good_dir_name k))
         ks
     \<and> list_all (\<lambda>(k, ok). ok) (map (map_prod id well_named) ks)"
| "well_named (TCanvas n) \<longleftrightarrow> True"
| "well_named (TObject n) \<longleftrightarrow> True"

fun has_colon_slash :: "string \<Rightarrow> bool" where
  "has_colon_slash [] = False"
| "has_colon_slash [c] = False"
| "has_colon_slash (c # d # ds) \<longleftrightarrow> (c = CHR '':'' \<and> d = CHR ''/'') \<or> has_colon_slash (d # ds)"

text \<open>
  What \<open>write_root_file\<close> computes for one key of a visited directory: the path given
  to the filter, whether the key is rendered, and the render request.
\<close>

definition root_key_path :: "tdirectory \<Rightarrow> string \<Rightarrow> string" where
  "root_key_path d key =
     (case index1 (split_colon_slash [] (GetPath d)) of
        Inr root_dir_path \<Rightarrow> path_join root_dir_path key
      | Inl e \<Rightarrow> [])"

definition accepts :: "regex_lib \<Rightarrow> string \<Rightarrow> tdirectory \<Rightarrow> string \<Rightarrow> bool" where
  "accepts lib pattern d key \<longleftrightarrow>
     is_TCanvas (Get d key) \<and> object_filter lib pattern (root_key_path d key) = Inr True"

definition render_of :: "index \<Rightarrow> tdirectory \<Rightarrow> string \<Rightarrow> tobject \<times> string" where
  "render_of self d key =
     ((case Get d key of Some obj \<Rightarrow> obj | None \<Rightarrow> TObject []),
      path_join (dirname self) (root_key_path d key) @ ''.eps'')"

definition renders_of :: "regex_lib \<Rightarrow> index \<Rightarrow> string \<Rightarrow> tdirectory \<Rightarrow> (tobject \<times> string) list" where
  "renders_of lib self pattern d =
     map (render_of self d) (filter (accepts lib pattern d) (filenames_of d))"

text \<open>The directories in the order \<open>walk\<close> visits them, and the key paths of their canvases.\<close>

definition walk_dirs :: "tdirectory \<Rightarrow> tdirectory list" where
  "walk_dirs tp = map (\<lambda>(dirpath, dirnames, filenames, tdir). tdir) (walk True tp)"

definition dirs_child :: "tdirectory \<Rightarrow> string \<Rightarrow> tdirectory list" where
  "dirs_child tp dn =
     (case Get tp dn of Some (TDirectory ks) \<Rightarrow> walk_dirs (subdir tp dn ks) | _ \<Rightarrow> [])"

definition own_cands :: "tdirectory \<Rightarrow> string list list" where
  "own_cands d =
     map (\<lambda>key. tpath d @ [key]) (filter (\<lambda>key. is_TCanvas (Get d key)) (filenames_of d))"

definition cands :: "tdirectory \<Rightarrow> string list list" where
  "cands tp = concat (map own_cands (walk_dirs tp))"









section \<open>Example inputs\<close>

text \<open>
  The container of the end-to-end scenario: a group \<open>A\<close> with the canvas \<open>h1\<close> and
  the object \<open>t1\<close>, which is not a canvas, and an empty group \<open>B\<close>.
\<close>

definition scenario_keys :: "(string \<times> tobject) list" where
  "scenario_keys =
     [(''B'', TDirectory []),
      (''A'', TDirectory [(''t1'', TObject ''t1''), (''h1'', TCanvas ''h1'')])]"

text \<open>A file system with nothing in it, the working directory being the root.\<close>

definition empty_fs :: fsys where
  "empty_fs = \<lparr>cwd = [], tree = Map.empty\<rparr>"

definition empty_world :: world where
  "empty_world = \<lparr>fs = empty_fs, saved = [], stdout = []\<rparr>"

text \<open>A file system that holds one regular file, \<open>f\<close>, and a state of a run on it.\<close>

definition file_fs :: fsys where
  "file_fs = \<lparr>cwd = [], tree = [[''f''] \<mapsto> RegularFile]\<rparr>"

definition file_world :: world where
  "file_world = \<lparr>fs = file_fs, saved = [], stdout = []\<rparr>"


text \<open>The index object of the scenario and a container without a canvas.\<close>

definition scenario_index :: index where
  "scenario_index = \<lparr>dirname = ''run1'', previous_level = 0, pwd = None\<rparr>"

definition other_keys :: "(string \<times> tobject) list" where
  "other_keys = [(''B'', TDirectory [(''t2'', TObject ''t2'')]), (''t1'', TObject ''t1'')]"

text \<open>
  Containers in which two canvases share an output path: a directory whose name ends in
  a colon, two keys of one name (two cycles of one canvas), a key with a slash in its
  name, and two groups in a file whose path contains \<open>:/\<close>.
\<close>

definition colon_keys :: "(string \<times> tobject) list" where
  "colon_keys =
     [(''x'', TDirectory [(''k'', TCanvas ''k'')]),
      (''x:'', TDirectory [(''y'', TDirectory [(''k'', TCanvas ''k'')])])]"

definition cycle_keys :: "(string \<times> tobject) list" where
  "cycle_keys = [(''h1'', TCanvas ''h1''), (''h1'', TCanvas ''h1'')]"

definition slash_keys :: "(string \<times> tobject) list" where
  "slash_keys =
     [(''A/h'', TCanvas ''A/h''),
      (''A'', TDirectory [(''h'', TCanvas ''h'')])]"

definition two_group_keys :: "(string \<times> tobject) list" where
  "two_group_keys =
     [(''A'', TDirectory [(''h'', TCanvas ''h'')]),
      (''B'', TDirectory [(''h'', TCanvas ''h'')])]"

text \<open>
  A container with two keys of one name in a directory, a canvas and a directory.
\<close>

definition shadow_keys :: "(string \<times> tobject) list" where
  "shadow_keys =
     [(''A'', TCanvas ''A''),
      (''A'', TDirectory [(''h'', TCanvas ''h'')])]"

section \<open>Properties of \<open>strip_root_ext\<close>\<close>

text \<open>
  Claim C2. \<open>strip_root_ext\<close> gives \<open>run1\<close> for \<open>run1.canv.root\<close> and for
  \<open>run1.root.2\<close>, and it fails on \<open>run1.txt\<close>. It does not fail on every path that
  does not end in the suffix: \<open>run1.root.txt\<close> is accepted and gives \<open>run1\<close>, because
  the pattern is matched from the start of the path and nothing ties it to the end.
\<close>

theorem strip_root_ext_examples:
  "strip_root_ext ''run1.canv.root'' = Inr ''run1''
   \<and> strip_root_ext ''run1.root.2'' = Inr ''run1''
   \<and> strip_root_ext ''run1.txt'' = Inl AssertionError
   \<and> strip_root_ext ''run1.root.txt'' = Inr ''run1''"
  by code_simp

section \<open>Properties of the summary\<close>

text \<open>
  Claim C5, as amended. When the two readings of the clock differ, \<open>main\<close> ends as the
  loop over the input files does, and after a loop that completes it reports the number
  of plots divided by the elapsed time.
\<close>

theorem main_avg_rate:
  assumes "t_stop \<noteq> t_start"
  shows "main lib files w pattern args t_start t_stop =
    (if args = [] then Inl AssertionError
     else (case for_loop (path_body lib files pattern) args (0, w) of
             Inl e \<Rightarrow> Inl e
           | Inr (n_plots, w') \<Rightarrow> Inr (n_plots, real n_plots / (t_stop - t_start), w')))"
  using assms by (simp add: main_def avg_rate_def split: sum.splits prod.splits)

lemma scenario_loop:
  "map_sum id fst
     (for_loop (path_body literal_lib (\<lambda>_. scenario_keys) ''^A/'') [''run1.root'']
        (0, empty_world)) = Inr 1"
  by code_simp

theorem main_avg_rate_witness:
  "(2::real) \<noteq> 0
   \<and> map_sum id (\<lambda>(n, r, w). (n, r))
       (main literal_lib (\<lambda>_. scenario_keys) empty_world ''^A/'' [''run1.root''] 0 2)
     = Inr (1, 1 / 2)"
proof -
  have ne: "(2::real) \<noteq> 0" by simp
  obtain w' where
    "for_loop (path_body literal_lib (\<lambda>_. scenario_keys) ''^A/'') [''run1.root'']
       (0, empty_world) = Inr (1, w')"
    using scenario_loop
    by (cases "for_loop (path_body literal_lib (\<lambda>_. scenario_keys) ''^A/'') [''run1.root'']
                 (0, empty_world)") auto
  with main_avg_rate [OF ne, of literal_lib "\<lambda>_. scenario_keys" empty_world "''^A/''"
      "[''run1.root'']"]
  show ?thesis by simp
qed

text \<open>
  When the two readings of the clock are equal, the division of line 112 raises
  \<open>ZeroDivisionError\<close>: the run of the scenario ends with the exception and reports no
  rate.
\<close>

theorem main_zero_elapsed_counterexample:
  "map_sum id (\<lambda>(n, r, w). r)
     (main literal_lib (\<lambda>_. scenario_keys) empty_world ''^A/'' [''run1.root''] 5 5)
   = Inl ZeroDivisionError"
proof -
  obtain w' where
    "for_loop (path_body literal_lib (\<lambda>_. scenario_keys) ''^A/'') [''run1.root'']
       (0, empty_world) = Inr (1, w')"
    using scenario_loop
    by (cases "for_loop (path_body literal_lib (\<lambda>_. scenario_keys) ''^A/'') [''run1.root'']
                 (0, empty_world)") auto
  then show ?thesis by (simp add: main_def avg_rate_def)
qed

section \<open>Properties of \<open>walk\<close>\<close>

lemma walk_unfold:
  "walk topdown tp =
     (if topdown then [visit_of tp] else [])
     @ concat (map (walk_child topdown tp) (dirnames_of tp))
     @ (if topdown then [] else [visit_of tp])"
  by (subst walk.simps) (simp add: walk_child_def [abs_def])

lemma walk_topdown:
  "walk True tp = visit_of tp # concat (map (walk_child True tp) (dirnames_of tp))"
  by (simp add: walk_unfold [of True])

lemma dirnames_TDirectory:
  "dn \<in> set (dirnames_of tp) \<Longrightarrow> \<exists>ks. Get tp dn = Some (TDirectory ks)"
  by (cases "Get tp dn" rule: is_TDirectory.cases) (auto simp: dirnames_of_def)

lemma set_walk:
  "set (walk topdown tp) =
     insert (visit_of tp) (\<Union>dn \<in> set (dirnames_of tp). set (walk_child topdown tp dn))"
  by (subst walk_unfold) auto

lemma walk_visits: "v \<in> set (walk topdown tp) \<Longrightarrow> \<exists>d. v = visit_of d"
proof (induction topdown tp rule: walk.induct)
  case (1 topdown tp)
  from "1.prems" consider "v = visit_of tp"
    | dn where "dn \<in> set (dirnames_of tp)" "v \<in> set (walk_child topdown tp dn)"
    unfolding set_walk [of topdown tp] by blast
  then show ?case
  proof cases
    case 1
    then show ?thesis by blast
  next
    case 2
    then obtain ks where "Get tp dn = Some (TDirectory ks)"
      "v \<in> set (walk topdown (subdir tp dn ks))"
      using dirnames_TDirectory [of dn tp] by (auto simp: walk_child_def)
    with 2 show ?thesis using "1.IH" by blast
  qed
qed

lemma visit_partition:
  "mset (dirnames_of d) + mset (filenames_of d) = mset (GetListOfKeys d)"
  by (simp add: dirnames_of_def filenames_of_def)


text \<open>
  Claim C10. In every record that \<open>walk\<close> yields, the names of the child groups and
  the names of the child objects together are the keys of the directory, each as often
  as the directory lists it; no name is in both lists; and a key is among the group
  names exactly when \<open>Get\<close> resolves it to a directory, among the object names
  otherwise.
\<close>

theorem walk_partitions_keys:
  assumes "(dirpath, dirnames, filenames, tdir) \<in> set (walk topdown tp)"
  shows "mset dirnames + mset filenames = mset (GetListOfKeys tdir)
    \<and> set dirnames \<inter> set filenames = {}
    \<and> (\<forall>k \<in> set (GetListOfKeys tdir).
          (k \<in> set dirnames \<longleftrightarrow> is_TDirectory (Get tdir k))
          \<and> (k \<in> set filenames \<longleftrightarrow> \<not> is_TDirectory (Get tdir k)))"
proof -
  from walk_visits [OF assms] have "dirnames = dirnames_of tdir" "filenames = filenames_of tdir"
    by (auto simp: visit_of_def)
  then show ?thesis
    by (auto simp: dirnames_of_def filenames_of_def)
qed

lemma scenario_visit_A:
  "(''run1.root:/A'', [], [''h1'', ''t1''],
      subdir (TFile ''run1.root'' scenario_keys) ''A''
        [(''t1'', TObject ''t1''), (''h1'', TCanvas ''h1'')])
     \<in> set (walk True (TFile ''run1.root'' scenario_keys))"
  by code_simp

theorem walk_partitions_keys_witness:
  "(''run1.root:/A'', [], [''h1'', ''t1''],
      subdir (TFile ''run1.root'' scenario_keys) ''A''
        [(''t1'', TObject ''t1''), (''h1'', TCanvas ''h1'')])
     \<in> set (walk True (TFile ''run1.root'' scenario_keys))
   \<and> mset ([] :: string list) + mset [''h1'', ''t1'']
     = mset (GetListOfKeys (subdir (TFile ''run1.root'' scenario_keys) ''A''
               [(''t1'', TObject ''t1''), (''h1'', TCanvas ''h1'')]))
   \<and> set ([] :: string list) \<inter> set [''h1'', ''t1''] = {}"
  using walk_partitions_keys [OF scenario_visit_A] scenario_visit_A by blast







lemma split_colon_slash_nonempty: "split_colon_slash acc s \<noteq> []"
  by (induction acc s rule: split_colon_slash.induct) auto

lemma split_colon_slash_two:
  "\<exists>x y zs. split_colon_slash acc (f @ '':/'' @ rest) = x # y # zs"
proof (induction acc f rule: split_colon_slash.induct)
  case (1 acc)
  obtain y zs where "split_colon_slash [] rest = y # zs"
    using split_colon_slash_nonempty [of "[]" rest] by (cases "split_colon_slash [] rest") auto
  then show ?case by simp
next
  case (2 acc c)
  obtain y zs where "split_colon_slash [] rest = y # zs"
    using split_colon_slash_nonempty [of "[]" rest] by (cases "split_colon_slash [] rest") auto
  then show ?case by simp
next
  case (3 acc c d ds)
  show ?case
  proof (cases "c = CHR '':'' \<and> d = CHR ''/''")
    case True
    obtain y zs where "split_colon_slash [] (ds @ '':/'' @ rest) = y # zs"
      using split_colon_slash_nonempty [of "[]" "ds @ '':/'' @ rest"]
      by (cases "split_colon_slash [] (ds @ '':/'' @ rest)") auto
    with True show ?thesis by simp
  next
    case False
    then have "split_colon_slash acc ((c # d # ds) @ '':/'' @ rest)
        = split_colon_slash (c # acc) ((d # ds) @ '':/'' @ rest)"
      by auto
    with "3.IH"(2) [OF False] show ?thesis by simp
  qed
qed

lemma index1_GetPath: "\<exists>r. index1 (split_colon_slash [] (GetPath d)) = Inr r"
  using split_colon_slash_two [of "[]" "tfile d" "join_slash (tpath d)"]
  by (auto simp: GetPath_def index1_def)

lemma walk_reachable:
  "reachable tp d \<Longrightarrow> set (walk topdown d) \<subseteq> set (walk topdown tp)"
proof (induction rule: reachable.induct)
  case reach_top
  show ?case by simp
next
  case (reach_sub d k ks)
  from reach_sub.hyps(2,3) have "k \<in> set (dirnames_of d)"
    by (simp add: dirnames_of_def)
  moreover from reach_sub.hyps(3)
  have "walk_child topdown d k = walk topdown (subdir d k ks)"
    by (simp add: walk_child_def)
  ultimately have "set (walk topdown (subdir d k ks)) \<subseteq> set (walk topdown d)"
    by (subst set_walk [of topdown d]) (metis UN_upper subset_insertI2)
  with reach_sub.IH show ?case by blast
qed

lemma visit_of_in_walk: "visit_of tp \<in> set (walk topdown tp)"
  by (simp add: set_walk [of topdown tp])

lemma for_loop_skip:
  assumes "\<And>x. x \<in> set xs \<Longrightarrow> body x s = Inr s"
  shows "for_loop body xs s = Inr s"
  using assms
proof (induction xs)
  case Nil
  show ?case by simp
next
  case (Cons x xs)
  have "body x s = Inr s"
    by (rule Cons.prems) simp
  moreover have "for_loop body xs s = Inr s"
    by (rule Cons.IH) (simp add: Cons.prems)
  ultimately show ?case by simp
qed





section \<open>Properties of \<open>make_dir_if_needed\<close>\<close>

lemma exists_at_upd: "\<not> exists_at t k0 \<Longrightarrow> exists_at t c \<Longrightarrow> exists_at (t(k0 \<mapsto> e)) c"
  by (auto simp: exists_at_def)

lemma is_dir_at_upd: "\<not> exists_at t k0 \<Longrightarrow> is_dir_at t c \<Longrightarrow> is_dir_at (t(k0 \<mapsto> e)) c"
  by (auto simp: exists_at_def is_dir_at_def)

lemma is_dir_at_exists: "is_dir_at t k \<Longrightarrow> exists_at t k"
  by (auto simp: exists_at_def is_dir_at_def)

lemma walk_path_mono:
  assumes ex: "\<And>c. exists_at t c \<Longrightarrow> exists_at t' c"
    and dir: "\<And>c. is_dir_at t c \<Longrightarrow> is_dir_at t' c"
  shows "walk_path t cur cs = Inr k \<Longrightarrow> walk_path t' cur cs = Inr k"
proof (induction cs arbitrary: cur)
  case Nil
  then show ?case by simp
next
  case (Cons c cs)
  from Cons.prems have here: "exists_at t cur" "is_dir_at t cur"
    by (auto split: if_splits)
  then have here': "exists_at t' cur" "is_dir_at t' cur"
    by (simp_all add: ex dir)
  from Cons.prems here
  have "walk_path t (if c = [] \<or> c = ''.'' then cur
                      else if c = ''..'' then butlast cur else cur @ [c]) cs = Inr k"
    by (auto split: if_splits)
  then have "walk_path t' (if c = [] \<or> c = ''.'' then cur
                      else if c = ''..'' then butlast cur else cur @ [c]) cs = Inr k"
    by (rule Cons.IH)
  with here' show ?case
    by (auto split: if_splits)
qed

lemma walk_path_upd:
  assumes "\<not> exists_at t k0" and "walk_path t cur cs = Inr k"
  shows "walk_path (t(k0 \<mapsto> e)) cur cs = Inr k"
  using assms(2)
proof (rule walk_path_mono [rotated 2])
  fix c
  assume "exists_at t c"
  with assms(1) show "exists_at (t(k0 \<mapsto> e)) c"
    by (rule exists_at_upd)
next
  fix c
  assume "is_dir_at t c"
  with assms(1) show "is_dir_at (t(k0 \<mapsto> e)) c"
    by (rule is_dir_at_upd)
qed

lemma isdir_upd:
  assumes "\<not> exists_at (tree fsy) k0" and "isdir fsy p"
  shows "isdir (fsy\<lparr>tree := (tree fsy)(k0 \<mapsto> e)\<rparr>) p"
proof -
  define fs' where "fs' = fsy\<lparr>tree := (tree fsy)(k0 \<mapsto> e)\<rparr>"
  have t': "tree fs' = (tree fsy)(k0 \<mapsto> e)" and start: "start_of fs' p = start_of fsy p"
    by (simp_all add: fs'_def start_of_def)
  from assms(2) obtain k where k: "resolve fsy p = Inr k" and dir: "is_dir_at (tree fsy) k"
    by (auto simp: isdir_def split: sum.splits)
  from k have p: "p \<noteq> []" and w: "walk_path (tree fsy) (start_of fsy p) (split_slash [] p) = Inr k"
    by (auto simp: resolve_def split: if_splits)
  from walk_path_upd [OF assms(1) w, of e]
  have "walk_path (tree fs') (start_of fs' p) (split_slash [] p) = Inr k"
    by (simp only: t' start)
  with p have "resolve fs' p = Inr k"
    by (simp add: resolve_def)
  moreover from is_dir_at_upd [OF assms(1) dir, of e] have "is_dir_at (tree fs') k"
    by (simp only: t')
  ultimately have "isdir fs' p"
    by (simp add: isdir_def)
  then show ?thesis
    by (simp only: fs'_def)
qed


lemma create_file_keeps: "isdir fsy d \<Longrightarrow> isdir (create_file fsy p) d"
  by (auto simp: create_file_def Let_def isdir_upd split: if_splits sum.splits)

lemma walk_path_append:
  "walk_path t cur (cs @ ds) =
     (case walk_path t cur cs of Inl e \<Rightarrow> Inl e | Inr k \<Rightarrow> walk_path t k ds)"
  by (induction cs arbitrary: cur) auto

lemma walk_path_empties:
  "is_dir_at t k \<Longrightarrow> list_all (\<lambda>c. c = []) ds \<Longrightarrow> walk_path t k ds = Inr k"
  by (induction ds) (auto simp: is_dir_at_exists)

lemma strip_trailing_decomp:
  "\<exists>ds. cs = strip_trailing cs @ ds \<and> list_all (\<lambda>c. c = []) ds"
proof -
  have "rev cs = takeWhile (\<lambda>c. c = []) (rev cs) @ dropWhile (\<lambda>c. c = []) (rev cs)"
    by simp
  then have "cs = rev (dropWhile (\<lambda>c. c = []) (rev cs)) @ rev (takeWhile (\<lambda>c. c = []) (rev cs))"
    by (metis rev_append rev_rev_ident)
  moreover have "list_all (\<lambda>c. c = []) (rev (takeWhile (\<lambda>c. c = []) (rev cs)))"
    by (simp add: list_all_iff) (metis set_takeWhileD)
  ultimately show ?thesis
    unfolding strip_trailing_def by blast
qed

lemma mkdir_isdir:
  assumes "mkdir fsy p = (None, fs')"
  shows "isdir fs' p"
proof -
  let ?comps = "strip_trailing (split_slash [] p)"
  from assms have p: "p \<noteq> []"
    by (auto simp: mkdir_def Let_def split: if_splits)
  from assms p obtain k where w: "walk_path (tree fsy) (start_of fsy p) ?comps = Inr k"
    and fresh: "\<not> exists_at (tree fsy) k"
    and fs': "fs' = fsy\<lparr>tree := (tree fsy)(k \<mapsto> Directory)\<rparr>"
    by (auto simp: mkdir_def Let_def split: if_splits sum.splits)
  obtain ds where ds: "split_slash [] p = ?comps @ ds" "list_all (\<lambda>c. c = []) ds"
    using strip_trailing_decomp by blast
  have t': "tree fs' = (tree fsy)(k \<mapsto> Directory)" and start: "start_of fs' p = start_of fsy p"
    by (simp_all add: fs' start_of_def)
  have dir: "is_dir_at (tree fs') k"
    by (simp add: t' is_dir_at_def)
  from walk_path_upd [OF fresh w, of Directory]
  have "walk_path (tree fs') (start_of fs' p) ?comps = Inr k"
    by (simp only: t' start)
  then have "walk_path (tree fs') (start_of fs' p) (?comps @ ds) = Inr k"
    using walk_path_empties [OF dir ds(2)] by (simp add: walk_path_append)
  with ds(1) p have "resolve fs' p = Inr k"
    by (simp add: resolve_def)
  with dir show ?thesis
    by (simp add: isdir_def)
qed


lemma os_makedirs_isdir:
  assumes "os_makedirs fsy name = (None, fs')" and "snd (split_tail name) \<noteq> ''.''"
  shows "isdir fs' name"
proof (cases "fst (split_tail name) \<noteq> [] \<and> snd (split_tail name) \<noteq> []
         \<and> \<not> path_exists fsy (fst (split_tail name))")
  case True
  obtain r1 fs1 where rec: "os_makedirs fsy (fst (split_tail name)) = (r1, fs1)"
    by (cases "os_makedirs fsy (fst (split_tail name))")
  from assms True rec have "mkdir fs1 name = (None, fs')"
    by (subst (asm) os_makedirs.simps) (auto split: if_splits)
  then show ?thesis by (rule mkdir_isdir)
next
  case False
  with assms(1) have "mkdir fsy name = (None, fs')"
    by (subst (asm) os_makedirs.simps) auto
  then show ?thesis by (rule mkdir_isdir)
qed

lemma makedirs_isdir:
  "makedirs fsy name = Inr fs' \<Longrightarrow> snd (split_tail name) \<noteq> ''.'' \<Longrightarrow> isdir fs' name"
  by (auto simp: makedirs_def split: prod.splits option.splits intro: os_makedirs_isdir)


lemma make_dir_isdir:
  "make_dir_if_needed fsy path = Inr fs' \<Longrightarrow> count_slash path \<noteq> 0
     \<Longrightarrow> snd (split_tail (path_dirname path)) \<noteq> ''.''
     \<Longrightarrow> isdir fs' (path_dirname path)"
  by (auto simp: make_dir_if_needed_def path_dirname_def Let_def split: if_splits
      dest: makedirs_isdir)











lemma ex_first: "\<exists>fs1. make_dir_if_needed empty_fs ''run1/A/h1'' = Inr fs1"
proof -
  have "\<not> isl (make_dir_if_needed empty_fs ''run1/A/h1'')"
    by code_simp
  then show ?thesis
    by (cases "make_dir_if_needed empty_fs ''run1/A/h1''") simp_all
qed

section \<open>Properties of the object filter\<close>

lemma re_match_prefix:
  "re_match lib pattern s =
     (case lib pattern of None \<Rightarrow> Inl ReError
      | Some lang \<Rightarrow> Inr (\<exists>p. prefix p s \<and> lang p))"
  by (auto simp: re_match_def list_ex_iff in_set_prefixes split: option.splits)

text \<open>
  Claim C4. The filter accepts every full path when the pattern is empty. With a
  pattern that is not empty it accepts exactly the full paths of which some prefix is in
  the language of the pattern: the match starts at the first character and need not
  reach the last. \<open>write_root_file\<close> applies it to the key joined to the directory
  path after \<open>:/\<close>, and renders the canvas exactly when it accepts.
\<close>

theorem object_filter_accepts:
  "object_filter lib pattern full_path =
     (if pattern = [] then Inr True
      else (case lib pattern of
              None \<Rightarrow> Inl ReError
            | Some lang \<Rightarrow> Inr (\<exists>p. prefix p full_path \<and> lang p)))
   \<and> (\<forall>nm r. Get tdir key = Some (TCanvas nm) \<and> index1 (split_colon_slash [] dirpath) = Inr r \<longrightarrow>
         key_body lib self pattern dirpath tdir key (n, w) =
           (case object_filter lib pattern (path_join r key) of
              Inl e \<Rightarrow> Inl e
            | Inr False \<Rightarrow> Inr (n, w)
            | Inr True \<Rightarrow>
                (case write_canvas (print w (path_join dirpath key)) (TCanvas nm)
                        (path_join (dirname self) (path_join r key)) of
                   Inl e \<Rightarrow> Inl e
                 | Inr w2 \<Rightarrow> Inr (n + 1, w2))))"
  by (auto simp: object_filter_def re_match_prefix key_body_def Let_def
      split: option.splits sum.splits bool.splits)

theorem object_filter_accepts_witness:
  "object_filter literal_lib [] ''B/h2'' = Inr True
   \<and> object_filter literal_lib ''^A/'' ''A/h1'' = Inr True
   \<and> object_filter literal_lib ''^A/'' ''B/A/h1'' = Inr False
   \<and> object_filter literal_lib ''^A/h1'' ''A/h'' = Inr False"
proof -
  have lib: "literal_lib ''^A/'' = Some (\<lambda>s. s = ''A/'')"
    "literal_lib ''^A/h1'' = Some (\<lambda>s. s = ''A/h1'')"
    by (simp_all add: literal_lib_def)
  from object_filter_accepts [where lib = literal_lib and pattern = "[]" and full_path = "''B/h2''"]
  have 1: "object_filter literal_lib [] ''B/h2'' = Inr True"
    by simp
  from object_filter_accepts [where lib = literal_lib and pattern = "''^A/''"
      and full_path = "''A/h1''"] lib
  have 2: "object_filter literal_lib ''^A/'' ''A/h1'' = Inr True"
    by simp
  from object_filter_accepts [where lib = literal_lib and pattern = "''^A/''"
      and full_path = "''B/A/h1''"] lib
  have 3: "object_filter literal_lib ''^A/'' ''B/A/h1'' = Inr False"
    by simp
  from object_filter_accepts [where lib = literal_lib and pattern = "''^A/h1''"
      and full_path = "''A/h''"] lib
  have 4: "object_filter literal_lib ''^A/h1'' ''A/h'' = Inr False"
    by simp
  from 1 2 3 4 show ?thesis by simp
qed

section \<open>Properties of \<open>write_canvas\<close>\<close>

lemma isdir_SaveAs: "isdir (fs w) d \<Longrightarrow> isdir (fs (SaveAs w canvas filename)) d"
  by (simp add: SaveAs_def create_file_keeps)

lemma saved_SaveAs: "saved (SaveAs w canvas filename) = saved w @ [(canvas, filename)]"
  by (simp add: SaveAs_def)

lemma stdout_SaveAs: "stdout (SaveAs w canvas filename) = stdout w"
  by (simp add: SaveAs_def)

text \<open>
  Claim C9, as amended. \<open>write_canvas\<close> first calls \<open>make_dir_if_needed\<close> on the
  base path and fails when that fails. Otherwise the one render request added is for the
  base path with \<open>.eps\<close>, none is added for the base path with \<open>.png\<close>, and the
  parent directory of the base path is there when the canvas is saved, provided the last
  component of the parent path is not \<open>.\<close>.
\<close>

theorem write_canvas_effects:
  "(\<forall>e. make_dir_if_needed (fs w) basepath = Inl e \<longrightarrow> write_canvas w canvas basepath = Inl e)
   \<and> (\<forall>fs1. make_dir_if_needed (fs w) basepath = Inr fs1 \<longrightarrow>
         (count_slash basepath \<noteq> 0 \<and> snd (split_tail (path_dirname basepath)) \<noteq> ''.'' \<longrightarrow>
            isdir fs1 (path_dirname basepath))
         \<and> write_canvas w canvas basepath = Inr (SaveAs (w\<lparr>fs := fs1\<rparr>) canvas (basepath @ ''.eps'')))
   \<and> (\<forall>w'. write_canvas w canvas basepath = Inr w' \<longrightarrow>
         saved w' = saved w @ [(canvas, basepath @ ''.eps'')]
         \<and> (canvas, basepath @ ''.png'') \<notin> set (drop (length (saved w)) (saved w'))
         \<and> stdout w' = stdout w
         \<and> (count_slash basepath \<noteq> 0 \<and> snd (split_tail (path_dirname basepath)) \<noteq> ''.'' \<longrightarrow>
              isdir (fs w') (path_dirname basepath)))"
proof (intro conjI allI impI)
  fix e
  assume "make_dir_if_needed (fs w) basepath = Inl e"
  then show "write_canvas w canvas basepath = Inl e"
    by (simp add: write_canvas_def)
next
  fix fs1
  assume a: "make_dir_if_needed (fs w) basepath = Inr fs1"
  then show "write_canvas w canvas basepath
      = Inr (SaveAs (w\<lparr>fs := fs1\<rparr>) canvas (basepath @ ''.eps''))"
    by (simp add: write_canvas_def)
  assume "count_slash basepath \<noteq> 0 \<and> snd (split_tail (path_dirname basepath)) \<noteq> ''.''"
  with a show "isdir fs1 (path_dirname basepath)"
    by (simp add: make_dir_isdir)
next
  fix w'
  assume a: "write_canvas w canvas basepath = Inr w'"
  then obtain fs1 where fs1: "make_dir_if_needed (fs w) basepath = Inr fs1"
    and w': "w' = SaveAs (w\<lparr>fs := fs1\<rparr>) canvas (basepath @ ''.eps'')"
    by (auto simp: write_canvas_def split: sum.splits)
  from w' show s: "saved w' = saved w @ [(canvas, basepath @ ''.eps'')]"
    by (simp add: saved_SaveAs)
  then show "(canvas, basepath @ ''.png'') \<notin> set (drop (length (saved w)) (saved w'))"
    by simp
  from w' show "stdout w' = stdout w"
    by (simp add: stdout_SaveAs)
  assume "count_slash basepath \<noteq> 0 \<and> snd (split_tail (path_dirname basepath)) \<noteq> ''.''"
  with fs1 have "isdir (fs (w\<lparr>fs := fs1\<rparr>)) (path_dirname basepath)"
    by (simp add: make_dir_isdir)
  then show "isdir (fs w') (path_dirname basepath)"
    unfolding w' by (rule isdir_SaveAs)
qed

lemma ex_write_canvas:
  "\<exists>fs1. make_dir_if_needed (fs empty_world) ''run1/A/h1'' = Inr fs1"
  using ex_first by (simp add: empty_world_def)

theorem write_canvas_effects_witness:
  "\<exists>w'. write_canvas empty_world (TCanvas ''h1'') ''run1/A/h1'' = Inr w'
     \<and> saved w' = [(TCanvas ''h1'', ''run1/A/h1.eps'')]
     \<and> isdir (fs w') ''run1/A''"
proof -
  from ex_write_canvas obtain fs1 where
    fs1: "make_dir_if_needed (fs empty_world) ''run1/A/h1'' = Inr fs1" ..
  note inst = write_canvas_effects [of empty_world "''run1/A/h1''" "TCanvas ''h1''"]
  from inst fs1 obtain w' where w': "write_canvas empty_world (TCanvas ''h1'') ''run1/A/h1'' = Inr w'"
    by blast
  have "count_slash ''run1/A/h1'' \<noteq> 0"
    by (simp add: count_slash_def)
  moreover have "path_dirname ''run1/A/h1'' = ''run1/A''"
    by code_simp
  moreover have "snd (split_tail ''run1/A'') \<noteq> ''.''"
    by code_simp
  moreover have "saved empty_world = []"
    by (simp add: empty_world_def)
  ultimately have "saved w' = [(TCanvas ''h1'', ''run1/A/h1.eps'')] \<and> isdir (fs w') ''run1/A''"
    using inst w' by auto
  with w' show ?thesis by blast
qed

text \<open>
  Without the condition on the parent path the directory need not be there: with a
  regular file \<open>f\<close> and the base path \<open>a/../f/./x\<close>, \<open>os.makedirs\<close> returns
  normally, the canvas is saved, and the parent \<open>a/../f/.\<close> is not a directory.
\<close>

theorem write_canvas_counterexample:
  "map_sum id (\<lambda>w'. (map snd (saved w'), isdir (fs w') ''a/../f/.''))
     (write_canvas file_world (TCanvas ''c'') ''a/../f/./x'')
   = Inr ([''a/../f/./x.eps''], False)"
  by code_simp

section \<open>Properties of \<open>write_root_file\<close>\<close>

lemma key_body_other:
  "\<not> is_TCanvas (Get tdir key) \<Longrightarrow> key_body lib self pattern dirpath tdir key s = Inr s"
  by (cases "Get tdir key" rule: is_TCanvas.cases) (auto simp: key_body_def split: prod.splits)

lemma key_body_rejected:
  "rejected lib pattern dirpath key \<Longrightarrow> key_body lib self pattern dirpath tdir key s = Inr s"
  by (auto simp: key_body_def rejected_def Let_def
      split: prod.splits option.splits tobject.splits sum.splits)

lemma key_body_invalid:
  assumes "is_TCanvas (Get tdir key)" and "pattern \<noteq> []" and "lib pattern = None"
    and "index1 (split_colon_slash [] dirpath) = Inr r"
  shows "key_body lib self pattern dirpath tdir key s = Inl ReError"
  using assms
  by (cases "Get tdir key" rule: is_TCanvas.cases)
    (auto simp: key_body_def object_filter_def re_match_def Let_def split: prod.splits)

lemma for_loop_fail_or_skip:
  assumes "\<And>x. x \<in> set xs \<Longrightarrow> body x s = (if P x then Inl e else Inr s)"
  shows "for_loop body xs s = (if list_ex P xs then Inl e else Inr s)"
  using assms
proof (induction xs)
  case Nil
  show ?case by simp
next
  case (Cons x xs)
  have x: "body x s = (if P x then Inl e else Inr s)"
    by (rule Cons.prems) simp
  have xs: "for_loop body xs s = (if list_ex P xs then Inl e else Inr s)"
    by (rule Cons.IH) (simp add: Cons.prems)
  show ?case
  proof (cases "P x")
    case True
    with x show ?thesis by simp
  next
    case False
    with x xs show ?thesis by simp
  qed
qed

lemma write_root_file_no_match:
  assumes "\<forall>(dirpath, dirnames, filenames, tdir) \<in> set (walk True rootfile).
             \<forall>key \<in> set filenames. is_TCanvas (Get tdir key) \<longrightarrow> rejected lib pattern dirpath key"
  shows "write_root_file lib self w rootfile pattern = Inr (0, w)"
  unfolding write_root_file_def
proof (rule for_loop_skip)
  fix v
  assume v: "v \<in> set (walk True rootfile)"
  obtain dirpath dirnames filenames tdir where [simp]: "v = (dirpath, dirnames, filenames, tdir)"
    by (cases v)
  have "for_loop (key_body lib self pattern dirpath tdir) filenames (0, w) = Inr (0, w)"
  proof (rule for_loop_skip)
    fix key
    assume "key \<in> set filenames"
    with assms v have "is_TCanvas (Get tdir key) \<longrightarrow> rejected lib pattern dirpath key"
      by auto
    then show "key_body lib self pattern dirpath tdir key (0, w) = Inr (0, w)"
      using key_body_other key_body_rejected by blast
  qed
  then show "visit_body lib self pattern v (0, w) = Inr (0, w)"
    by (simp add: visit_body_def)
qed

lemma write_root_file_invalid:
  assumes "pattern \<noteq> []" and "lib pattern = None"
  shows "write_root_file lib self w rootfile pattern
       = (if has_canvas rootfile then Inl ReError else Inr (0, w))"
  unfolding write_root_file_def has_canvas_def
proof (rule for_loop_fail_or_skip)
  fix v
  assume v: "v \<in> set (walk True rootfile)"
  obtain dirpath dirnames filenames tdir where [simp]: "v = (dirpath, dirnames, filenames, tdir)"
    by (cases v)
  from walk_visits [OF v] obtain d where "v = visit_of d" ..
  then have "dirpath = GetPath d"
    by (simp add: visit_of_def)
  with index1_GetPath [of d] obtain r where r: "index1 (split_colon_slash [] dirpath) = Inr r"
    by auto
  have "for_loop (key_body lib self pattern dirpath tdir) filenames (0, w)
      = (if list_ex (\<lambda>key. is_TCanvas (Get tdir key)) filenames then Inl ReError else Inr (0, w))"
  proof (rule for_loop_fail_or_skip)
    fix key
    show "key_body lib self pattern dirpath tdir key (0, w)
        = (if is_TCanvas (Get tdir key) then Inl ReError else Inr (0, w))"
      using key_body_invalid [where lib = lib and pattern = pattern, OF _ assms r] key_body_other
      by simp
  qed
  then show "visit_body lib self pattern v (0, w)
      = (if case v of (dirpath, dirnames, filenames, tdir) \<Rightarrow>
               list_ex (\<lambda>key. is_TCanvas (Get tdir key)) filenames
         then Inl ReError else Inr (0, w))"
    by (simp add: visit_body_def)
qed

text \<open>
  Claim C6, as amended. A malformed pattern is not found before the traversal:
  \<open>write_root_file\<close> raises \<open>re.error\<close> when it reaches the first canvas, so it
  fails exactly when some key it looks at resolves to a canvas, and a container without
  a canvas is processed to the end with no plot.
\<close>

theorem invalid_pattern_raised_late:
  assumes "pattern \<noteq> []" and "lib pattern = None"
  shows "write_root_file lib self w rootfile pattern
       = (if has_canvas rootfile then Inl ReError else Inr (0, w))"
  using assms by (rule write_root_file_invalid)

theorem invalid_pattern_raised_late_witness:
  "''('' \<noteq> [] \<and> literal_lib ''('' = None
   \<and> has_canvas (TFile ''run1.root'' scenario_keys)
   \<and> write_root_file literal_lib scenario_index empty_world (TFile ''run1.root'' scenario_keys)
       ''('' = Inl ReError"
proof -
  have 1: "''('' \<noteq> []" by simp
  have 2: "literal_lib ''('' = None" by (simp add: literal_lib_def)
  have 3: "has_canvas (TFile ''run1.root'' scenario_keys)" by code_simp
  from invalid_pattern_raised_late [where lib = literal_lib and pattern = "''(''"
      and self = scenario_index and w = empty_world
      and rootfile = "TFile ''run1.root'' scenario_keys", OF 1 2] 1 2 3
  show ?thesis by simp
qed

text \<open>
  The run of \<open>main\<close> with the malformed pattern \<open>(\<close> on a container without a
  canvas ends normally and reports no plot.
\<close>

theorem invalid_pattern_counterexample:
  "literal_lib ''('' = None
   \<and> map_sum id (\<lambda>(n, r, w). (n, r))
       (main literal_lib (\<lambda>_. other_keys) empty_world ''('' [''run1.root''] 0 2)
     = Inr (0, 0)"
  by code_simp

section \<open>The output paths of a run\<close>

subsection \<open>Splitting at \<open>:/\<close>\<close>

lemma split_colon_slash_none:
  "\<not> has_colon_slash s \<Longrightarrow> split_colon_slash acc s = [rev acc @ s]"
  by (induction acc s rule: split_colon_slash.induct) auto

lemma split_colon_slash_first:
  "\<not> has_colon_slash f \<Longrightarrow>
     split_colon_slash acc (f @ '':/'' @ rest) = (rev acc @ f) # split_colon_slash [] rest"
proof (induction acc f rule: split_colon_slash.induct)
  case (1 acc)
  show ?case by simp
next
  case (2 acc c)
  show ?case by simp
next
  case (3 acc c d ds)
  from "3.prems" have ncs: "\<not> (c = CHR '':'' \<and> d = CHR ''/'')" and rest: "\<not> has_colon_slash (d # ds)"
    by auto
  from ncs have "split_colon_slash acc ((c # d # ds) @ '':/'' @ rest)
      = split_colon_slash (c # acc) ((d # ds) @ '':/'' @ rest)"
    by auto
  with "3.IH"(2) [OF ncs rest] show ?case by simp
qed

lemma no_slash_no_colon_slash: "CHR ''/'' \<notin> set s \<Longrightarrow> \<not> has_colon_slash s"
  by (induction s rule: has_colon_slash.induct) auto

lemma has_colon_slash_append:
  "has_colon_slash (a @ b) \<longleftrightarrow>
     has_colon_slash a \<or> has_colon_slash b
     \<or> (a \<noteq> [] \<and> last a = CHR '':'' \<and> b \<noteq> [] \<and> hd b = CHR ''/'')"
proof (induction a rule: has_colon_slash.induct)
  case 1
  show ?case by simp
next
  case (2 c)
  show ?case by (cases b) auto
next
  case (3 c d ds)
  then show ?case by auto
qed

subsection \<open>Joining names\<close>


lemma join_slash_snoc: "xs \<noteq> [] \<Longrightarrow> join_slash (xs @ [k]) = join_slash xs @ ''/'' @ k"
  by (induction xs rule: join_slash.induct) auto

lemma join_slash_nonempty:
  "xs \<noteq> [] \<Longrightarrow> list_all good_name xs \<Longrightarrow>
     join_slash xs \<noteq> [] \<and> hd (join_slash xs) \<noteq> CHR ''/'' \<and> last (join_slash xs) \<noteq> CHR ''/''"
proof (induction xs rule: join_slash.induct)
  case 1
  then show ?case by simp
next
  case (2 x)
  then have "x \<noteq> []" "CHR ''/'' \<notin> set x"
    by (simp_all add: good_name_def)
  then have "hd x \<noteq> CHR ''/''" "last x \<noteq> CHR ''/''"
    by (metis hd_in_set, metis last_in_set)
  with \<open>x \<noteq> []\<close> show ?case by simp
next
  case (3 x y ys)
  then have x: "x \<noteq> []" "CHR ''/'' \<notin> set x"
    by (simp_all add: good_name_def)
  from 3 have "last (join_slash (y # ys)) \<noteq> CHR ''/''" "join_slash (y # ys) \<noteq> []"
    by simp_all
  moreover from x have "hd x \<noteq> CHR ''/''"
    by (metis hd_in_set)
  with x have "hd (x @ ''/'' @ join_slash (y # ys)) \<noteq> CHR ''/''"
    by simp
  ultimately show ?case by simp
qed

lemma join_slash_no_colon_slash:
  "list_all good_dir_name xs \<Longrightarrow> \<not> has_colon_slash (join_slash xs)"
proof (induction xs rule: join_slash.induct)
  case 1
  show ?case by simp
next
  case (2 x)
  then show ?case
    by (simp add: good_dir_name_def good_name_def no_slash_no_colon_slash)
next
  case (3 x y ys)
  from "3.prems" have x: "CHR ''/'' \<notin> set x" "x \<noteq> []" "last x \<noteq> CHR '':''"
    by (simp_all add: good_dir_name_def good_name_def)
  from 3 have rest: "\<not> has_colon_slash (join_slash (y # ys))"
    by simp
  have "\<not> has_colon_slash (CHR ''/'' # join_slash (y # ys))"
    using rest by (cases "join_slash (y # ys)") auto
  then have "\<not> has_colon_slash (x @ CHR ''/'' # join_slash (y # ys))"
    using x by (simp add: has_colon_slash_append no_slash_no_colon_slash)
  then show ?case by simp
qed

lemma split_slash_none: "CHR ''/'' \<notin> set x \<Longrightarrow> split_slash acc x = [rev acc @ x]"
  by (induction x arbitrary: acc) auto

lemma split_slash_first:
  "CHR ''/'' \<notin> set x \<Longrightarrow>
     split_slash acc (x @ CHR ''/'' # rest) = (rev acc @ x) # split_slash [] rest"
  by (induction x arbitrary: acc) auto

lemma split_slash_join:
  "xs \<noteq> [] \<Longrightarrow> list_all (\<lambda>x. CHR ''/'' \<notin> set x) xs \<Longrightarrow> split_slash [] (join_slash xs) = xs"
proof (induction xs rule: join_slash.induct)
  case 1
  then show ?case by simp
next
  case (2 x)
  then show ?case by (simp add: split_slash_none)
next
  case (3 x y ys)
  then show ?case by (simp add: split_slash_first)
qed

lemma join_slash_inject:
  assumes "list_all good_name xs" and "list_all good_name ys" and "xs \<noteq> []" and "ys \<noteq> []"
    and "join_slash xs = join_slash ys"
  shows "xs = ys"
proof -
  from assms(1,2) have "list_all (\<lambda>x. CHR ''/'' \<notin> set x) xs" "list_all (\<lambda>x. CHR ''/'' \<notin> set x) ys"
    by (simp_all add: list_all_iff good_name_def)
  with assms(3,4) have "split_slash [] (join_slash xs) = xs" "split_slash [] (join_slash ys) = ys"
    by (simp_all add: split_slash_join)
  with assms(5) show ?thesis by metis
qed

lemma path_join_relative:
  "s \<noteq> [] \<Longrightarrow> hd s \<noteq> CHR ''/'' \<Longrightarrow>
     path_join a s = (if a = [] \<or> last a = CHR ''/'' then a @ s else a @ ''/'' @ s)"
  by (cases s) (auto simp: path_join_def)

lemma path_join_inject:
  assumes "s \<noteq> []" "hd s \<noteq> CHR ''/''" "t \<noteq> []" "hd t \<noteq> CHR ''/''"
    and "path_join a s = path_join a t"
  shows "s = t"
proof -
  from assms(1,2) have "path_join a s = (if a = [] \<or> last a = CHR ''/'' then a @ s else a @ ''/'' @ s)"
    by (rule path_join_relative)
  moreover from assms(3,4) have "path_join a t = (if a = [] \<or> last a = CHR ''/'' then a @ t else a @ ''/'' @ t)"
    by (rule path_join_relative)
  ultimately have "(if a = [] \<or> last a = CHR ''/'' then a @ s else a @ ''/'' @ s)
      = (if a = [] \<or> last a = CHR ''/'' then a @ t else a @ ''/'' @ t)"
    using assms(5) by simp
  then show ?thesis
    by (cases "a = [] \<or> last a = CHR ''/''") simp_all
qed

lemma path_join_names:
  assumes "list_all good_name c" and "good_name key"
  shows "path_join (join_slash c) key = join_slash (c @ [key])"
proof (cases "c = []")
  case True
  with assms(2) show ?thesis
    by (cases key) (auto simp: path_join_def good_name_def)
next
  case False
  from join_slash_nonempty [OF False assms(1)]
  have "join_slash c \<noteq> []" "last (join_slash c) \<noteq> CHR ''/''"
    by simp_all
  moreover from assms(2) have "key \<noteq> []" "hd key \<noteq> CHR ''/''"
    by (simp add: good_name_def, metis good_name_def hd_in_set)
  ultimately have "path_join (join_slash c) key = join_slash c @ ''/'' @ key"
    by (subst path_join_relative) simp_all
  with join_slash_snoc [OF False, of key] show ?thesis
    by simp
qed

subsection \<open>The render requests of a run\<close>

lemma saved_print: "saved (print w line) = saved w"
  by (simp add: print_def)

lemma write_canvas_saved:
  "write_canvas w canvas basepath = Inr w' \<Longrightarrow> saved w' = saved w @ [(canvas, basepath @ ''.eps'')]"
  by (auto simp: write_canvas_def saved_SaveAs split: sum.splits)

lemma key_body_step:
  assumes "key_body lib self pattern (GetPath d) d key (n, w) = Inr (n', w')"
  shows "saved w' = saved w @ (if accepts lib pattern d key then [render_of self d key] else [])
    \<and> n' = n + (if accepts lib pattern d key then 1 else 0)"
proof (cases "is_TCanvas (Get d key)")
  case False
  with assms key_body_other [OF False] show ?thesis
    by (simp add: accepts_def)
next
  case True
  then obtain nm where nm: "Get d key = Some (TCanvas nm)"
    by (cases "Get d key" rule: is_TCanvas.cases) auto
  obtain r where r: "index1 (split_colon_slash [] (GetPath d)) = Inr r"
    using index1_GetPath by blast
  then have rkp: "root_key_path d key = path_join r key"
    by (simp add: root_key_path_def)
  from assms nm r obtain b where b: "object_filter lib pattern (path_join r key) = Inr b"
    by (auto simp: key_body_def Let_def split: sum.splits)
  show ?thesis
  proof (cases b)
    case False
    with assms nm r b rkp True show ?thesis
      by (simp add: key_body_def accepts_def)
  next
    case True
    with assms nm r b obtain w2 where
      w2: "write_canvas (print w (path_join (GetPath d) key)) (TCanvas nm)
             (path_join (dirname self) (path_join r key)) = Inr w2"
      and res: "n' = n + 1" "w' = w2"
      by (auto simp: key_body_def Let_def split: sum.splits)
    from write_canvas_saved [OF w2] res True b nm rkp \<open>is_TCanvas (Get d key)\<close>
    show ?thesis
      by (simp add: saved_print accepts_def render_of_def)
  qed
qed

lemma key_loop:
  assumes "for_loop (key_body lib self pattern (GetPath d) d) keys (n, w) = Inr (n', w')"
  shows "saved w' = saved w @ map (render_of self d) (filter (accepts lib pattern d) keys)
    \<and> n' = n + length (filter (accepts lib pattern d) keys)"
  using assms
proof (induction keys arbitrary: n w)
  case Nil
  then show ?case by simp
next
  case (Cons key keys)
  from Cons.prems obtain n1 w1 where
    1: "key_body lib self pattern (GetPath d) d key (n, w) = Inr (n1, w1)"
    and 2: "for_loop (key_body lib self pattern (GetPath d) d) keys (n1, w1) = Inr (n', w')"
    by (auto split: sum.splits)
  from key_body_step [OF 1] Cons.IH [OF 2] show ?case
    by simp
qed

lemma visit_loop:
  assumes "for_loop (visit_body lib self pattern) (map visit_of ds) (n, w) = Inr (n', w')"
  shows "saved w' = saved w @ concat (map (renders_of lib self pattern) ds)
    \<and> n' = n + length (concat (map (renders_of lib self pattern) ds))"
  using assms
proof (induction ds arbitrary: n w)
  case Nil
  then show ?case by simp
next
  case (Cons d ds)
  from Cons.prems obtain n1 w1 where
    1: "visit_body lib self pattern (visit_of d) (n, w) = Inr (n1, w1)"
    and 2: "for_loop (visit_body lib self pattern) (map visit_of ds) (n1, w1) = Inr (n', w')"
    by (auto split: sum.splits)
  from 1 have "for_loop (key_body lib self pattern (GetPath d) d) (filenames_of d) (n, w)
      = Inr (n1, w1)"
    by (simp add: visit_body_def visit_of_def)
  from key_loop [OF this] Cons.IH [OF 2] show ?case
    by (simp add: renders_of_def)
qed

lemma walk_dirs_visits: "map visit_of (walk_dirs tp) = walk True tp"
proof -
  have "map (visit_of \<circ> (\<lambda>(dirpath, dirnames, filenames, tdir). tdir)) (walk True tp)
      = map id (walk True tp)"
  proof (rule map_cong [OF refl])
    fix v
    assume "v \<in> set (walk True tp)"
    from walk_visits [OF this] obtain d where "v = visit_of d" ..
    then show "(visit_of \<circ> (\<lambda>(dirpath, dirnames, filenames, tdir). tdir)) v = id v"
      by (simp add: visit_of_def)
  qed
  then show ?thesis
    by (simp add: walk_dirs_def)
qed

lemma write_root_file_saved:
  assumes "write_root_file lib self w tp pattern = Inr (n, w')"
  shows "saved w' = saved w @ concat (map (renders_of lib self pattern) (walk_dirs tp))
    \<and> n = length (concat (map (renders_of lib self pattern) (walk_dirs tp)))"
proof -
  from assms have "for_loop (visit_body lib self pattern) (map visit_of (walk_dirs tp)) (0, w)
      = Inr (n, w')"
    by (simp add: write_root_file_def walk_dirs_visits)
  from visit_loop [OF this] show ?thesis by simp
qed

subsection \<open>The key paths of the visited canvases\<close>

lemma tdir_induct [case_names dir]:
  assumes "\<And>tp. (\<And>dn ks. dn \<in> set (dirnames_of tp) \<Longrightarrow> Get tp dn = Some (TDirectory ks)
              \<Longrightarrow> P (subdir tp dn ks)) \<Longrightarrow> P tp"
  shows "P tp"
  by (rule walk.induct [of "\<lambda>b t. P t" True tp]) (blast intro: assms)

lemma walk_dirs_unfold:
  "walk_dirs tp = tp # concat (map (dirs_child tp) (dirnames_of tp))"
proof -
  have "map (\<lambda>(dirpath, dirnames, filenames, tdir). tdir) (walk_child True tp dn) = dirs_child tp dn"
    for dn
    by (simp add: walk_child_def dirs_child_def walk_dirs_def split: option.splits tobject.splits)
  then show ?thesis
    by (simp add: walk_dirs_def walk_topdown [of tp] visit_of_def map_concat comp_def)
qed

lemma dirs_child_dir:
  "Get tp dn = Some (TDirectory ks) \<Longrightarrow> dirs_child tp dn = walk_dirs (subdir tp dn ks)"
  by (simp add: dirs_child_def)

lemma concat_map_concat:
  "concat (map f (concat xss)) = concat (map (\<lambda>xs. concat (map f xs)) xss)"
  by (induction xss) auto

lemma cands_unfold:
  "cands tp = own_cands tp @ concat (map (\<lambda>dn. concat (map own_cands (dirs_child tp dn))) (dirnames_of tp))"
  by (simp add: cands_def walk_dirs_unfold [of tp] concat_map_concat comp_def)

lemma well_named_dir:
  "well_named (TDirectory ks) \<longleftrightarrow>
     distinct (map fst ks)
     \<and> (\<forall>(k, v) \<in> set ks. good_name k \<and> (is_TDirectory (Some v) \<longrightarrow> good_dir_name k)
           \<and> well_named v)"
  by (auto simp: list_all_iff)

declare well_named.simps(1) [simp del]

lemma well_named_child:
  assumes "well_named (TDirectory ks)" and "(k, v) \<in> set ks"
  shows "good_name k" and "is_TDirectory (Some v) \<Longrightarrow> good_dir_name k" and "well_named v"
  using assms unfolding well_named_dir by auto

lemma well_named_distinct: "well_named (TDirectory ks) \<Longrightarrow> distinct (map fst ks)"
  unfolding well_named_dir by simp

lemma canvases_dir:
  "set (canvases (TDirectory ks)) = {k # kp | k v kp. (k, v) \<in> set ks \<and> kp \<in> set (canvases v)}"
  by (auto simp: image_iff)

declare canvases.simps(1) [simp del]

lemma canvases_dir_nonempty: "[] \<notin> set (canvases (TDirectory ks))"
  unfolding canvases_dir by simp

lemma Get_distinct:
  "distinct (map fst (tkeys tp)) \<Longrightarrow> Get tp k = Some v \<longleftrightarrow> (k, v) \<in> set (tkeys tp)"
  by (simp add: Get_def)

lemma dirnames_set:
  assumes "distinct (map fst (tkeys tp))"
  shows "set (dirnames_of tp) = {k. \<exists>ks. (k, TDirectory ks) \<in> set (tkeys tp)}"
    and "distinct (dirnames_of tp)"
proof -
  show "distinct (dirnames_of tp)"
    using assms by (simp add: dirnames_of_def GetListOfKeys_def)
  show "set (dirnames_of tp) = {k. \<exists>ks. (k, TDirectory ks) \<in> set (tkeys tp)}"
  proof (intro set_eqI iffI)
    fix k
    assume k: "k \<in> set (dirnames_of tp)"
    from dirnames_TDirectory [OF k] obtain ks where "Get tp k = Some (TDirectory ks)" ..
    with assms show "k \<in> {k. \<exists>ks. (k, TDirectory ks) \<in> set (tkeys tp)}"
      by (auto simp: Get_distinct)
  next
    fix k
    assume "k \<in> {k. \<exists>ks. (k, TDirectory ks) \<in> set (tkeys tp)}"
    then obtain ks where ks: "(k, TDirectory ks) \<in> set (tkeys tp)"
      by blast
    with assms have "Get tp k = Some (TDirectory ks)"
      by (simp add: Get_distinct)
    moreover from ks have "k \<in> set (GetListOfKeys tp)"
      by (force simp: GetListOfKeys_def)
    ultimately show "k \<in> set (dirnames_of tp)"
      by (simp add: dirnames_of_def)
  qed
qed

lemma canvas_keys_set:
  assumes "distinct (map fst (tkeys tp))"
  shows "set (filter (\<lambda>key. is_TCanvas (Get tp key)) (filenames_of tp))
       = {k. \<exists>n. (k, TCanvas n) \<in> set (tkeys tp)}"
    and "distinct (filter (\<lambda>key. is_TCanvas (Get tp key)) (filenames_of tp))"
proof -
  show "distinct (filter (\<lambda>key. is_TCanvas (Get tp key)) (filenames_of tp))"
    using assms by (simp add: filenames_of_def GetListOfKeys_def)
  show "set (filter (\<lambda>key. is_TCanvas (Get tp key)) (filenames_of tp))
       = {k. \<exists>n. (k, TCanvas n) \<in> set (tkeys tp)}"
  proof (intro set_eqI iffI)
    fix k
    assume "k \<in> set (filter (\<lambda>key. is_TCanvas (Get tp key)) (filenames_of tp))"
    then have "is_TCanvas (Get tp k)"
      by simp
    then obtain n where "Get tp k = Some (TCanvas n)"
      by (cases "Get tp k" rule: is_TCanvas.cases) auto
    with assms show "k \<in> {k. \<exists>n. (k, TCanvas n) \<in> set (tkeys tp)}"
      by (auto simp: Get_distinct)
  next
    fix k
    assume "k \<in> {k. \<exists>n. (k, TCanvas n) \<in> set (tkeys tp)}"
    then obtain n where n: "(k, TCanvas n) \<in> set (tkeys tp)"
      by blast
    with assms have "Get tp k = Some (TCanvas n)"
      by (simp add: Get_distinct)
    moreover from n have "k \<in> set (GetListOfKeys tp)"
      by (force simp: GetListOfKeys_def)
    ultimately show "k \<in> set (filter (\<lambda>key. is_TCanvas (Get tp key)) (filenames_of tp))"
      by (simp add: filenames_of_def)
  qed
qed

lemma own_cands_set:
  assumes "distinct (map fst (tkeys tp))"
  shows "set (own_cands tp) = {tpath tp @ [k] | k n. (k, TCanvas n) \<in> set (tkeys tp)}"
    and "distinct (own_cands tp)"
proof -
  show "set (own_cands tp) = {tpath tp @ [k] | k n. (k, TCanvas n) \<in> set (tkeys tp)}"
    unfolding own_cands_def set_map canvas_keys_set(1) [OF assms] by blast
  show "distinct (own_cands tp)"
    unfolding own_cands_def using canvas_keys_set(2) [OF assms]
    by (simp add: distinct_map inj_on_def)
qed

lemma distinct_concat_map:
  assumes "distinct xs"
    and "\<And>x. x \<in> set xs \<Longrightarrow> distinct (f x)"
    and "\<And>x y. x \<in> set xs \<Longrightarrow> y \<in> set xs \<Longrightarrow> x \<noteq> y \<Longrightarrow> set (f x) \<inter> set (f y) = {}"
  shows "distinct (concat (map f xs))"
  using assms
proof (induction xs)
  case Nil
  show ?case by simp
next
  case (Cons x xs)
  have "distinct (concat (map f xs))"
    by (rule Cons.IH) (use Cons.prems in auto)
  moreover have "distinct (f x)"
    by (rule Cons.prems(2)) simp
  moreover have "set (f x) \<inter> set (f y) = {}" if "y \<in> set xs" for y
    using Cons.prems(1) that by (intro Cons.prems(3)) auto
  ultimately show ?case by auto
qed

lemma cands_paths:
  assumes "well_named (TDirectory (tkeys tp))"
  shows "distinct (cands tp)
    \<and> set (cands tp) = (@) (tpath tp) ` set (canvases (TDirectory (tkeys tp)))"
  using assms
proof (induction tp rule: tdir_induct)
  case (dir tp)
  let ?c0 = "tpath tp" and ?ks = "tkeys tp"
  define ch where "ch dn = concat (map own_cands (dirs_child tp dn))" for dn
  from dir.prems have dist: "distinct (map fst ?ks)"
    by (rule well_named_distinct)
  have wn: "well_named v" if "(k, v) \<in> set ?ks" for k v
    using dir.prems that by (rule well_named_child(3))
  have child: "distinct (ch dn) \<and> set (ch dn) = (@) (?c0 @ [dn]) ` set (canvases (TDirectory ks'))"
    if "(dn, TDirectory ks') \<in> set ?ks" for dn ks'
  proof -
    from that dist have g: "Get tp dn = Some (TDirectory ks')"
      by (simp add: Get_distinct)
    from that have "dn \<in> set (dirnames_of tp)"
      using dirnames_set(1) [OF dist] by blast
    from dir.IH [OF this g] wn [OF that]
    have "distinct (cands (subdir tp dn ks'))
      \<and> set (cands (subdir tp dn ks')) = (@) (?c0 @ [dn]) ` set (canvases (TDirectory ks'))"
      by (simp add: subdir_def)
    moreover have "ch dn = cands (subdir tp dn ks')"
      by (simp add: ch_def cands_def dirs_child_dir [OF g])
    ultimately show ?thesis by simp
  qed
  have dn_ex: "\<exists>ks'. (dn, TDirectory ks') \<in> set ?ks" if "dn \<in> set (dirnames_of tp)" for dn
    using that dirnames_set(1) [OF dist] by blast
  have unfold: "cands tp = own_cands tp @ concat (map ch (dirnames_of tp))"
    by (simp add: cands_unfold [of tp] ch_def [abs_def])
  note nonempty = canvases_dir_nonempty
  have "set (cands tp) = (@) ?c0 ` set (canvases (TDirectory ?ks))"
  proof (intro set_eqI iffI)
    fix x
    assume "x \<in> set (cands tp)"
    then consider "x \<in> set (own_cands tp)"
      | dn where "dn \<in> set (dirnames_of tp)" "x \<in> set (ch dn)"
      unfolding unfold by auto
    then show "x \<in> (@) ?c0 ` set (canvases (TDirectory ?ks))"
    proof cases
      case 1
      then obtain k n where "x = ?c0 @ [k]" "(k, TCanvas n) \<in> set ?ks"
        unfolding own_cands_set(1) [OF dist] by blast
      moreover have "[] \<in> set (canvases (TCanvas n))"
        by simp
      ultimately have "[k] \<in> set (canvases (TDirectory ?ks))" "x = ?c0 @ [k]"
        unfolding canvases_dir by blast+
      then show ?thesis by blast
    next
      case 2
      from dn_ex [OF 2(1)] obtain ks' where ks': "(dn, TDirectory ks') \<in> set ?ks" ..
      from child [OF ks'] 2(2) obtain kp where
        kp: "kp \<in> set (canvases (TDirectory ks'))" "x = (?c0 @ [dn]) @ kp"
        by blast
      from ks' kp(1) have "dn # kp \<in> set (canvases (TDirectory ?ks))"
        unfolding canvases_dir [of ?ks] by blast
      with kp(2) show ?thesis by auto
    qed
  next
    fix x
    assume "x \<in> (@) ?c0 ` set (canvases (TDirectory ?ks))"
    then obtain k v kp where kv: "(k, v) \<in> set ?ks" and kp: "kp \<in> set (canvases v)"
      and x: "x = ?c0 @ k # kp"
      unfolding canvases_dir [of ?ks] by blast
    show "x \<in> set (cands tp)"
    proof (cases v)
      case (TDirectory ks')
      with kv have "k \<in> set (dirnames_of tp)"
        using dirnames_set(1) [OF dist] by blast
      moreover from child [of k ks'] kv kp x TDirectory have "x \<in> set (ch k)"
        by auto
      ultimately show ?thesis
        unfolding unfold by auto
    next
      case (TCanvas n)
      with kp x kv have "x \<in> set (own_cands tp)"
        unfolding own_cands_set(1) [OF dist] by auto
      then show ?thesis
        unfolding unfold by simp
    next
      case (TObject n)
      with kp show ?thesis by simp
    qed
  qed
  moreover have "distinct (cands tp)"
  proof -
    have "distinct (concat (map ch (dirnames_of tp)))"
    proof (rule distinct_concat_map)
      show "distinct (dirnames_of tp)"
        by (rule dirnames_set(2) [OF dist])
    next
      fix dn
      assume "dn \<in> set (dirnames_of tp)"
      from dn_ex [OF this] child show "distinct (ch dn)"
        by blast
    next
      fix dn dn'
      assume dn: "dn \<in> set (dirnames_of tp)" and dn': "dn' \<in> set (dirnames_of tp)"
        and ne: "dn \<noteq> dn'"
      from dn_ex [OF dn] obtain ks1 where 1: "(dn, TDirectory ks1) \<in> set ?ks" ..
      from dn_ex [OF dn'] obtain ks2 where 2: "(dn', TDirectory ks2) \<in> set ?ks" ..
      show "set (ch dn) \<inter> set (ch dn') = {}"
      proof (rule ccontr)
        assume "set (ch dn) \<inter> set (ch dn') \<noteq> {}"
        then obtain x where "x \<in> set (ch dn)" "x \<in> set (ch dn')"
          by blast
        with child [OF 1] child [OF 2] obtain kp kp' where
          "x = (?c0 @ [dn]) @ kp" "x = (?c0 @ [dn']) @ kp'"
          by blast
        then have "dn = dn'" by simp
        with ne show False by simp
      qed
    qed
    moreover have "distinct (own_cands tp)"
      by (rule own_cands_set(2) [OF dist])
    moreover have "set (own_cands tp) \<inter> set (concat (map ch (dirnames_of tp))) = {}"
    proof (rule ccontr)
      assume "set (own_cands tp) \<inter> set (concat (map ch (dirnames_of tp))) \<noteq> {}"
      then obtain x dn where x: "x \<in> set (own_cands tp)"
        and dn: "dn \<in> set (dirnames_of tp)" "x \<in> set (ch dn)"
        by auto
      from x obtain k where k: "x = ?c0 @ [k]"
        unfolding own_cands_set(1) [OF dist] by blast
      from dn_ex [OF dn(1)] obtain ks' where ks': "(dn, TDirectory ks') \<in> set ?ks" ..
      from child [OF ks'] dn(2) obtain kp where
        kp: "kp \<in> set (canvases (TDirectory ks'))" "x = (?c0 @ [dn]) @ kp"
        by blast
      from k kp(2) have "kp = []" by simp
      with kp(1) nonempty show False by simp
    qed
    ultimately show ?thesis
      unfolding unfold by simp
  qed
  ultimately show ?case by simp
qed

lemma walk_dirs_inv:
  assumes "well_named (TDirectory (tkeys tp))" and "list_all good_dir_name (tpath tp)"
    and "d \<in> set (walk_dirs tp)"
  shows "tfile d = tfile tp \<and> list_all good_dir_name (tpath d) \<and> well_named (TDirectory (tkeys d))"
  using assms
proof (induction tp rule: tdir_induct)
  case (dir tp)
  from dir.prems(3) consider "d = tp"
    | dn where "dn \<in> set (dirnames_of tp)" "d \<in> set (dirs_child tp dn)"
    unfolding walk_dirs_unfold [of tp] by auto
  then show ?case
  proof cases
    case 1
    with dir.prems show ?thesis by simp
  next
    case 2
    from dirnames_TDirectory [OF 2(1)] obtain ks' where g: "Get tp dn = Some (TDirectory ks')" ..
    from dir.prems(1) have dist: "distinct (map fst (tkeys tp))"
      by (rule well_named_distinct)
    with g have mem: "(dn, TDirectory ks') \<in> set (tkeys tp)"
      by (simp add: Get_distinct)
    with dir.prems(1) have "good_dir_name dn" "well_named (TDirectory ks')"
      using well_named_child(2,3) [of "tkeys tp" dn "TDirectory ks'"] by simp_all
    with dir.prems(2) have "well_named (TDirectory (tkeys (subdir tp dn ks')))"
      "list_all good_dir_name (tpath (subdir tp dn ks'))"
      by (simp_all add: subdir_def)
    moreover from 2(2) g have "d \<in> set (walk_dirs (subdir tp dn ks'))"
      by (simp add: dirs_child_dir)
    ultimately have "tfile d = tfile (subdir tp dn ks') \<and> list_all good_dir_name (tpath d)
        \<and> well_named (TDirectory (tkeys d))"
      by (rule dir.IH [OF 2(1) g])
    then show ?thesis by (simp add: subdir_def)
  qed
qed

lemma canvases_good:
  "well_named v \<Longrightarrow> kp \<in> set (canvases v) \<Longrightarrow> list_all good_name kp"
proof (induction v arbitrary: kp)
  case (TDirectory ks)
  from TDirectory.prems(2) obtain k v kp' where kv: "(k, v) \<in> set ks"
    and kp': "kp' \<in> set (canvases v)" and kp: "kp = k # kp'"
    unfolding canvases_dir by blast
  from TDirectory.prems(1) kv have "good_name k" "well_named v"
    by (rule well_named_child(1), rule well_named_child(3))
  moreover from kv have "v \<in> Basic_BNFs.snds (k, v)"
    by simp
  ultimately show ?case
    using TDirectory.IH [OF kv _ _ kp'] kp by simp
next
  case (TCanvas n)
  then show ?case by simp
next
  case (TObject n)
  then show ?case by simp
qed

subsection \<open>Output paths\<close>

lemma good_dir_names: "list_all good_dir_name c \<Longrightarrow> list_all good_name c"
  by (simp add: list_all_iff good_dir_name_def)

lemma root_key_path_names:
  assumes wn: "well_named (TDirectory ks)" and path: "\<not> has_colon_slash path"
    and d: "d \<in> set (walk_dirs (TFile path ks))" and canvas: "is_TCanvas (Get d key)"
  shows "root_key_path d key = join_slash (tpath d @ [key])"
proof -
  from walk_dirs_inv [of "TFile path ks" d] wn d
  have inv: "tfile d = path" "list_all good_dir_name (tpath d)" "well_named (TDirectory (tkeys d))"
    by (simp_all add: TFile_def)
  from canvas obtain n where "Get d key = Some (TCanvas n)"
    by (cases "Get d key" rule: is_TCanvas.cases) auto
  then have "(key, TCanvas n) \<in> set (tkeys d)"
    by (simp add: Get_def map_of_SomeD)
  with inv(3) have key: "good_name key"
    by (rule well_named_child(1))
  have "split_colon_slash [] (GetPath d) = [path, join_slash (tpath d)]"
    using split_colon_slash_first [OF path, of "[]" "join_slash (tpath d)"]
      split_colon_slash_none [OF join_slash_no_colon_slash [OF inv(2)], of "[]"]
    by (simp add: GetPath_def inv(1))
  then have "root_key_path d key = path_join (join_slash (tpath d)) key"
    by (simp add: root_key_path_def index1_def)
  with path_join_names [OF good_dir_names [OF inv(2)] key] show ?thesis
    by simp
qed

lemma renders_of_names:
  assumes wn: "well_named (TDirectory ks)" and path: "\<not> has_colon_slash path"
    and d: "d \<in> set (walk_dirs (TFile path ks))"
  shows "map snd (renders_of lib self pattern d)
       = map (\<lambda>kp. base_of self kp @ ''.eps'') (filter (accepted lib pattern) (own_cands d))"
proof -
  let ?canvas = "filter (\<lambda>key. is_TCanvas (Get d key)) (filenames_of d)"
  have rkp: "root_key_path d key = join_slash (tpath d @ [key])" if "key \<in> set ?canvas" for key
    using that root_key_path_names [OF wn path d] by simp
  have "filter (accepts lib pattern d) (filenames_of d)
      = filter (\<lambda>key. object_filter lib pattern (root_key_path d key) = Inr True) ?canvas"
    by (simp add: accepts_def [abs_def] conj_commute)
  also have "\<dots> = filter (\<lambda>key. accepted lib pattern (tpath d @ [key])) ?canvas"
    by (rule filter_cong [OF refl]) (simp add: rkp accepted_def)
  finally have keys: "filter (accepts lib pattern d) (filenames_of d)
      = filter (\<lambda>key. accepted lib pattern (tpath d @ [key])) ?canvas" .
  have "map snd (renders_of lib self pattern d)
      = map (\<lambda>key. path_join (dirname self) (root_key_path d key) @ ''.eps'')
          (filter (\<lambda>key. accepted lib pattern (tpath d @ [key])) ?canvas)"
    by (simp add: renders_of_def keys render_of_def comp_def)
  also have "\<dots> = map (\<lambda>key. base_of self (tpath d @ [key]) @ ''.eps'')
          (filter (\<lambda>key. accepted lib pattern (tpath d @ [key])) ?canvas)"
    by (rule map_cong [OF refl]) (simp add: rkp base_of_def)
  also have "\<dots> = map (\<lambda>kp. base_of self kp @ ''.eps'')
          (filter (accepted lib pattern) (own_cands d))"
    by (simp add: own_cands_def filter_map comp_def)
  finally show ?thesis .
qed

lemma renders_names:
  assumes wn: "well_named (TDirectory ks)" and path: "\<not> has_colon_slash path"
  shows "map snd (concat (map (renders_of lib self pattern) (walk_dirs (TFile path ks))))
       = map (\<lambda>kp. base_of self kp @ ''.eps'')
           (filter (accepted lib pattern) (cands (TFile path ks)))"
proof -
  have "map (\<lambda>d. map snd (renders_of lib self pattern d)) (walk_dirs (TFile path ks))
      = map (\<lambda>d. map (\<lambda>kp. base_of self kp @ ''.eps'')
                (filter (accepted lib pattern) (own_cands d))) (walk_dirs (TFile path ks))"
    by (rule map_cong [OF refl]) (rule renders_of_names [OF wn path])
  then have "concat (map (\<lambda>d. map snd (renders_of lib self pattern d)) (walk_dirs (TFile path ks)))
      = concat (map (\<lambda>d. map (\<lambda>kp. base_of self kp @ ''.eps'')
                (filter (accepted lib pattern) (own_cands d))) (walk_dirs (TFile path ks)))"
    by (rule arg_cong)
  moreover have "map snd (concat (map (renders_of lib self pattern) (walk_dirs (TFile path ks))))
      = concat (map (\<lambda>d. map snd (renders_of lib self pattern d)) (walk_dirs (TFile path ks)))"
    by (simp only: map_concat map_map comp_def)
  moreover have "map (\<lambda>kp. base_of self kp @ ''.eps'')
           (filter (accepted lib pattern) (cands (TFile path ks)))
      = concat (map (\<lambda>d. map (\<lambda>kp. base_of self kp @ ''.eps'')
                (filter (accepted lib pattern) (own_cands d))) (walk_dirs (TFile path ks)))"
    by (simp only: cands_def filter_concat map_concat map_map comp_def)
  ultimately show ?thesis
    by (simp only:)
qed

lemma base_of_inject:
  assumes wn: "well_named (TDirectory ks)"
    and kp: "kp \<in> set (canvases (TDirectory ks))" and kp': "kp' \<in> set (canvases (TDirectory ks))"
    and eq: "base_of self kp = base_of self kp'"
  shows "kp = kp'"
proof -
  have ne: "kp \<noteq> []"
  proof
    assume "kp = []"
    with kp have "[] \<in> set (canvases (TDirectory ks))" by (simp only:)
    with canvases_dir_nonempty [of ks] show False by (rule notE)
  qed
  have ne': "kp' \<noteq> []"
  proof
    assume "kp' = []"
    with kp' have "[] \<in> set (canvases (TDirectory ks))" by (simp only:)
    with canvases_dir_nonempty [of ks] show False by (rule notE)
  qed
  have good: "list_all good_name kp"
    by (rule canvases_good [OF wn kp])
  have good': "list_all good_name kp'"
    by (rule canvases_good [OF wn kp'])
  from join_slash_nonempty [OF ne good]
  have a: "join_slash kp \<noteq> []" "hd (join_slash kp) \<noteq> CHR ''/''"
    by (rule conjunct1, rule conjunct1 [OF conjunct2])
  from join_slash_nonempty [OF ne' good']
  have b: "join_slash kp' \<noteq> []" "hd (join_slash kp') \<noteq> CHR ''/''"
    by (rule conjunct1, rule conjunct1 [OF conjunct2])
  from eq have "path_join (dirname self) (join_slash kp) = path_join (dirname self) (join_slash kp')"
    by (simp only: base_of_def)
  from path_join_inject [OF a b this] have "join_slash kp = join_slash kp'" .
  from join_slash_inject [OF good good' ne ne' this] show ?thesis .
qed

text \<open>
  Claim C1, as amended. In a container whose keys are well named, opened under a path
  without \<open>:/\<close>, two canvases never have the same output base path. A run of
  \<open>write_root_file\<close> that completes adds render requests for exactly the output base
  paths of the canvases whose full path the filter accepts, each once, and returns their
  number.
\<close>

theorem rendered_paths:
  assumes "well_named (TDirectory ks)" and "\<not> has_colon_slash path"
  shows "inj_on (base_of self) (set (canvases (TDirectory ks)))
    \<and> (\<forall>n w'. write_root_file lib self w (TFile path ks) pattern = Inr (n, w') \<longrightarrow>
          (\<exists>bases. take (length (saved w)) (saved w') = saved w
             \<and> map snd (drop (length (saved w)) (saved w')) = map (\<lambda>b. b @ ''.eps'') bases
             \<and> n = length bases
             \<and> distinct bases
             \<and> set bases = base_of self `
                  {kp \<in> set (canvases (TDirectory ks)). accepted lib pattern kp}))"
proof (intro conjI allI impI)
  show inj: "inj_on (base_of self) (set (canvases (TDirectory ks)))"
    by (rule inj_onI) (rule base_of_inject [OF assms(1)])
  fix n w'
  assume run: "write_root_file lib self w (TFile path ks) pattern = Inr (n, w')"
  let ?tp = "TFile path ks"
  let ?new = "concat (map (renders_of lib self pattern) (walk_dirs ?tp))"
  let ?kps = "filter (accepted lib pattern) (cands ?tp)"
  from write_root_file_saved [OF run]
  have saved: "saved w' = saved w @ ?new" and n: "n = length ?new"
    by simp_all
  from cands_paths [of ?tp] assms(1)
  have cands: "distinct (cands ?tp)" "set (cands ?tp) = set (canvases (TDirectory ks))"
    by (simp_all add: TFile_def)
  have names: "map snd ?new = map (\<lambda>kp. base_of self kp @ ''.eps'') ?kps"
    by (rule renders_names [OF assms])
  have "set ?kps \<subseteq> set (canvases (TDirectory ks))"
    using cands(2) by auto
  with inj have "inj_on (base_of self) (set ?kps)"
    by (rule inj_on_subset)
  with cands(1) have "distinct (map (base_of self) ?kps)"
    by (simp add: distinct_map)
  moreover have "set (map (base_of self) ?kps)
      = base_of self ` {kp \<in> set (canvases (TDirectory ks)). accepted lib pattern kp}"
    using cands(2) by auto
  moreover have "map snd (drop (length (saved w)) (saved w')) = map snd ?new"
    using saved by simp
  then have "map snd (drop (length (saved w)) (saved w'))
      = map (\<lambda>b. b @ ''.eps'') (map (base_of self) ?kps)"
    unfolding names by (simp only: map_map comp_def)
  moreover have "length ?new = length ?kps"
    using arg_cong [OF names, of length] by (simp only: length_map)
  then have "n = length (map (base_of self) ?kps)"
    using n by (simp only: length_map)
  moreover have "take (length (saved w)) (saved w') = saved w"
    using saved by simp
  ultimately show "\<exists>bases. take (length (saved w)) (saved w') = saved w
             \<and> map snd (drop (length (saved w)) (saved w')) = map (\<lambda>b. b @ ''.eps'') bases
             \<and> n = length bases
             \<and> distinct bases
             \<and> set bases = base_of self `
                  {kp \<in> set (canvases (TDirectory ks)). accepted lib pattern kp}"
    by blast
qed

lemma scenario_well_named: "well_named (TDirectory scenario_keys)"
  by code_simp

lemma scenario_run:
  "map_sum id fst
     (write_root_file literal_lib scenario_index empty_world (TFile ''run1.root'' scenario_keys)
        ''^A/'') = Inr 1"
  by code_simp

lemma scenario_canvases: "canvases (TDirectory scenario_keys) = [[''A'', ''h1'']]"
  by code_simp

lemma scenario_accepted: "accepted literal_lib ''^A/'' [''A'', ''h1'']"
  by code_simp

lemma scenario_base: "base_of scenario_index [''A'', ''h1''] = ''run1/A/h1''"
  by code_simp

theorem rendered_paths_witness:
  "well_named (TDirectory scenario_keys) \<and> \<not> has_colon_slash ''run1.root''
   \<and> (\<exists>w' bases.
         write_root_file literal_lib scenario_index empty_world
           (TFile ''run1.root'' scenario_keys) ''^A/'' = Inr (1, w')
         \<and> map snd (saved w') = map (\<lambda>b. b @ ''.eps'') bases
         \<and> distinct bases \<and> set bases = {''run1/A/h1''})"
proof -
  have path: "\<not> has_colon_slash ''run1.root''"
    by simp
  obtain w' where run: "write_root_file literal_lib scenario_index empty_world
      (TFile ''run1.root'' scenario_keys) ''^A/'' = Inr (1, w')"
    using scenario_run
    by (cases "write_root_file literal_lib scenario_index empty_world
          (TFile ''run1.root'' scenario_keys) ''^A/''") auto
  from rendered_paths [OF scenario_well_named path, of scenario_index literal_lib empty_world
      "''^A/''"] run
  obtain bases where bases:
    "map snd (drop (length (saved empty_world)) (saved w')) = map (\<lambda>b. b @ ''.eps'') bases"
    "distinct bases"
    "set bases = base_of scenario_index `
       {kp \<in> set (canvases (TDirectory scenario_keys)). accepted literal_lib ''^A/'' kp}"
    by blast
  have "{kp \<in> set (canvases (TDirectory scenario_keys)). accepted literal_lib ''^A/'' kp}
      = {[''A'', ''h1'']}"
    using scenario_accepted by (auto simp: scenario_canvases)
  with bases(3) have "set bases = {''run1/A/h1''}"
    by (simp add: scenario_base)
  moreover from bases(1) have "map snd (saved w') = map (\<lambda>b. b @ ''.eps'') bases"
    by (simp add: empty_world_def)
  ultimately show ?thesis
    using scenario_well_named path run bases(2) by blast
qed

text \<open>
  Without these conditions two canvases can get one output base path, which is then
  rendered twice: under the directories \<open>x\<close> and \<open>x:/y\<close>, under two keys of one
  name, under the key \<open>A/h\<close> and the key \<open>h\<close> of the directory \<open>A\<close>, and under
  two directories of a file opened as \<open>d:/f.root\<close>.
\<close>

theorem rendered_paths_counterexample:
  "canvases (TDirectory colon_keys) = [[''x'', ''k''], [''x:'', ''y'', ''k'']]
   \<and> map_sum id (\<lambda>(n, w). (n, map snd (saved w)))
       (write_root_file literal_lib scenario_index empty_world (TFile ''run1.root'' colon_keys) [])
     = Inr (2, [''run1/x/k.eps'', ''run1/x/k.eps''])
   \<and> map_sum id (\<lambda>(n, w). (n, map snd (saved w)))
       (write_root_file literal_lib scenario_index empty_world (TFile ''run1.root'' cycle_keys) [])
     = Inr (2, [''run1/h1.eps'', ''run1/h1.eps''])
   \<and> map_sum id (\<lambda>(n, w). (n, map snd (saved w)))
       (write_root_file literal_lib scenario_index empty_world (TFile ''run1.root'' slash_keys) [])
     = Inr (2, [''run1/A/h.eps'', ''run1/A/h.eps''])
   \<and> map_sum id (\<lambda>(n, w). (n, map snd (saved w)))
       (write_root_file literal_lib scenario_index empty_world (TFile ''d:/f.root'' two_group_keys) [])
     = Inr (2, [''run1/f.root/h.eps'', ''run1/f.root/h.eps''])"
  by code_simp

section \<open>\<open>make_dir_if_needed\<close> on paths of plain names\<close>
































































section \<open>The groups that a run visits\<close>

lemma distinct_keys_dir:
  "distinct_keys (TDirectory ks) \<longleftrightarrow>
     distinct (map fst ks) \<and> (\<forall>(k, v) \<in> set ks. distinct_keys v)"
  by (auto simp: list_all_iff)

lemma hierarchy_reachable:
  assumes "in_hierarchy tp d" and "distinct_keys (TDirectory (tkeys tp))"
  shows "reachable tp d \<and> distinct_keys (TDirectory (tkeys d))"
  using assms
proof (induction rule: in_hierarchy.induct)
  case hier_top
  then show ?case by (simp add: reach_top del: distinct_keys.simps)
next
  case (hier_sub d k ks)
  then have r: "reachable tp d" and dk: "distinct_keys (TDirectory (tkeys d))"
    by simp_all
  from dk have dist: "distinct (map fst (tkeys d))"
    unfolding distinct_keys_dir by simp
  from dk hier_sub.hyps(2) have sub: "distinct_keys (TDirectory ks)"
    unfolding distinct_keys_dir [of "tkeys d"] by blast
  from dist hier_sub.hyps(2) have get: "Get d k = Some (TDirectory ks)"
    by (simp add: Get_distinct)
  from hier_sub.hyps(2) have "k \<in> set (GetListOfKeys d)"
    by (force simp: GetListOfKeys_def)
  from reach_sub [OF r this get] sub show ?case
    by (simp add: subdir_def del: distinct_keys.simps)
qed

lemma for_loop_append:
  "for_loop body (xs @ ys) s = (case for_loop body xs s of Inl e \<Rightarrow> Inl e | Inr s' \<Rightarrow> for_loop body ys s')"
  by (induction xs arbitrary: s) (auto split: sum.splits)

lemma for_loop_drop:
  assumes "\<And>s. body v s = Inr s"
  shows "for_loop body (vs1 @ v # vs2) s = for_loop body (vs1 @ vs2) s"
  by (simp add: for_loop_append assms split: sum.splits)

lemma visit_body_rejected:
  assumes "all_rejected lib pattern v"
  shows "visit_body lib self pattern v s = Inr s"
proof -
  obtain dirpath dirnames filenames tdir where v: "v = (dirpath, dirnames, filenames, tdir)"
    by (cases v)
  have "for_loop (key_body lib self pattern dirpath tdir) filenames s = Inr s"
  proof (rule for_loop_skip)
    fix key
    assume "key \<in> set filenames"
    with assms v have "is_TCanvas (Get tdir key) \<longrightarrow> rejected lib pattern dirpath key"
      by (simp add: all_rejected_def list_all_iff)
    then show "key_body lib self pattern dirpath tdir key s = Inr s"
      using key_body_other key_body_rejected by blast
  qed
  with v show ?thesis
    by (simp add: visit_body_def)
qed

text \<open>
  Claim C8, as amended. \<open>walk\<close> does not see the pattern. Where the keys of every
  directory have distinct names, every group of the container is among the records that
  \<open>walk\<close> yields; in any container, every directory that \<open>Get\<close> returns is. A run
  of \<open>write_root_file\<close> that returns has rendered the accepted canvases of all the
  directories that \<open>walk\<close> yields, in that order, and counted them. A record all of
  whose canvases the filter turns away leaves the count and the state as they are, in any
  run: the run is the run over the other records. When that is so for every record, the
  run ends without an error and with no plot.
\<close>

theorem walk_visits_every_group:
  "(\<forall>d. in_hierarchy rootfile d \<and> distinct_keys (TDirectory (tkeys rootfile)) \<longrightarrow>
        visit_of d \<in> set (walk True rootfile))
   \<and> (\<forall>d. reachable rootfile d \<longrightarrow> visit_of d \<in> set (walk True rootfile))
   \<and> (\<forall>n w'. write_root_file lib self w rootfile pattern = Inr (n, w') \<longrightarrow>
         saved w' = saved w @ concat (map (renders_of lib self pattern) (walk_dirs rootfile))
         \<and> n = length (concat (map (renders_of lib self pattern) (walk_dirs rootfile))))
   \<and> (\<forall>v s. all_rejected lib pattern v \<longrightarrow> visit_body lib self pattern v s = Inr s)
   \<and> (\<forall>vs1 v vs2. walk True rootfile = vs1 @ v # vs2 \<and> all_rejected lib pattern v \<longrightarrow>
         write_root_file lib self w rootfile pattern
         = for_loop (visit_body lib self pattern) (vs1 @ vs2) (0, w))
   \<and> (list_all (all_rejected lib pattern) (walk True rootfile) \<longrightarrow>
         write_root_file lib self w rootfile pattern = Inr (0, w))"
proof (intro conjI allI impI)
  fix d
  assume "in_hierarchy rootfile d \<and> distinct_keys (TDirectory (tkeys rootfile))"
  then have "reachable rootfile d"
    using hierarchy_reachable by blast
  from walk_reachable [OF this, of True] visit_of_in_walk [of d True]
  show "visit_of d \<in> set (walk True rootfile)"
    by blast
next
  fix d
  assume "reachable rootfile d"
  from walk_reachable [OF this, of True] visit_of_in_walk [of d True]
  show "visit_of d \<in> set (walk True rootfile)"
    by blast
next
  fix n w'
  assume "write_root_file lib self w rootfile pattern = Inr (n, w')"
  from write_root_file_saved [OF this]
  show "saved w' = saved w @ concat (map (renders_of lib self pattern) (walk_dirs rootfile))"
    and "n = length (concat (map (renders_of lib self pattern) (walk_dirs rootfile)))"
    by simp_all
next
  fix v s
  assume "all_rejected lib pattern v"
  then show "visit_body lib self pattern v s = Inr s"
    by (rule visit_body_rejected)
next
  fix vs1 v vs2
  assume a: "walk True rootfile = vs1 @ v # vs2 \<and> all_rejected lib pattern v"
  then have "\<And>s. visit_body lib self pattern v s = Inr s"
    by (simp add: visit_body_rejected)
  from for_loop_drop [of "visit_body lib self pattern" v vs1 vs2 "(0, w)", OF this] a
  show "write_root_file lib self w rootfile pattern
      = for_loop (visit_body lib self pattern) (vs1 @ vs2) (0, w)"
    by (simp add: write_root_file_def)
next
  assume "list_all (all_rejected lib pattern) (walk True rootfile)"
  then have "\<And>v. v \<in> set (walk True rootfile) \<Longrightarrow> visit_body lib self pattern v (0, w) = Inr (0, w)"
    by (simp add: list_all_iff visit_body_rejected)
  then show "write_root_file lib self w rootfile pattern = Inr (0, w)"
    unfolding write_root_file_def by (rule for_loop_skip)
qed

lemma scenario_hierarchy_B:
  "in_hierarchy (TFile ''run1.root'' scenario_keys) (subdir (TFile ''run1.root'' scenario_keys) ''B'' [])"
  by (rule hier_sub [OF hier_top]) (simp add: TFile_def scenario_keys_def)

lemma scenario_distinct_keys: "distinct_keys (TDirectory scenario_keys)"
  by code_simp

lemma scenario_walk:
  "walk True (TFile ''run1.root'' scenario_keys)
   = [visit_of (TFile ''run1.root'' scenario_keys),
      visit_of (subdir (TFile ''run1.root'' scenario_keys) ''A''
                  [(''t1'', TObject ''t1''), (''h1'', TCanvas ''h1'')])]
     @ visit_of (subdir (TFile ''run1.root'' scenario_keys) ''B'' []) # []"
  by code_simp

lemma scenario_B_rejected:
  "all_rejected literal_lib ''^A/'' (visit_of (subdir (TFile ''run1.root'' scenario_keys) ''B'' []))"
  by code_simp

lemma scenario_all_rejected:
  "list_all (all_rejected literal_lib ''^Z'') (walk True (TFile ''run1.root'' scenario_keys))"
  by code_simp

lemma scenario_renders:
  "concat (map (renders_of literal_lib scenario_index ''^A/'')
     (walk_dirs (TFile ''run1.root'' scenario_keys))) = [(TCanvas ''h1'', ''run1/A/h1.eps'')]"
  by code_simp

theorem walk_visits_every_group_witness:
  "in_hierarchy (TFile ''run1.root'' scenario_keys)
     (subdir (TFile ''run1.root'' scenario_keys) ''B'' [])
   \<and> distinct_keys (TDirectory scenario_keys)
   \<and> visit_of (subdir (TFile ''run1.root'' scenario_keys) ''B'' [])
       \<in> set (walk True (TFile ''run1.root'' scenario_keys))
   \<and> all_rejected literal_lib ''^A/''
       (visit_of (subdir (TFile ''run1.root'' scenario_keys) ''B'' []))
   \<and> (\<exists>w'. write_root_file literal_lib scenario_index empty_world
               (TFile ''run1.root'' scenario_keys) ''^A/'' = Inr (1, w')
            \<and> saved w' = [(TCanvas ''h1'', ''run1/A/h1.eps'')])
   \<and> write_root_file literal_lib scenario_index empty_world (TFile ''run1.root'' scenario_keys)
       ''^A/''
     = for_loop (visit_body literal_lib scenario_index ''^A/'')
         [visit_of (TFile ''run1.root'' scenario_keys),
          visit_of (subdir (TFile ''run1.root'' scenario_keys) ''A''
                      [(''t1'', TObject ''t1''), (''h1'', TCanvas ''h1'')])]
         (0, empty_world)
   \<and> write_root_file literal_lib scenario_index empty_world (TFile ''run1.root'' scenario_keys)
       ''^Z'' = Inr (0, empty_world)"
proof -
  let ?T = "TFile ''run1.root'' scenario_keys"
  note a = walk_visits_every_group [of ?T literal_lib scenario_index empty_world "''^A/''"]
  note z = walk_visits_every_group [of ?T literal_lib scenario_index empty_world "''^Z''"]
  have keys: "distinct_keys (TDirectory (tkeys ?T))"
    using scenario_distinct_keys by (simp add: TFile_def)
  from a scenario_hierarchy_B keys
  have visited: "visit_of (subdir ?T ''B'' []) \<in> set (walk True ?T)"
    by blast
  obtain w' where run: "write_root_file literal_lib scenario_index empty_world ?T ''^A/'' = Inr (1, w')"
    using scenario_run
    by (cases "write_root_file literal_lib scenario_index empty_world ?T ''^A/''") auto
  with a have "saved w' = saved empty_world
      @ concat (map (renders_of literal_lib scenario_index ''^A/'') (walk_dirs ?T))"
    by blast
  then have saved: "saved w' = [(TCanvas ''h1'', ''run1/A/h1.eps'')]"
    by (simp add: scenario_renders empty_world_def)
  from a scenario_walk scenario_B_rejected
  have drop: "write_root_file literal_lib scenario_index empty_world ?T ''^A/''
      = for_loop (visit_body literal_lib scenario_index ''^A/'')
          ([visit_of ?T,
            visit_of (subdir ?T ''A'' [(''t1'', TObject ''t1''), (''h1'', TCanvas ''h1'')])] @ [])
          (0, empty_world)"
    by blast
  from z scenario_all_rejected
  have none: "write_root_file literal_lib scenario_index empty_world ?T ''^Z'' = Inr (0, empty_world)"
    by blast
  from scenario_hierarchy_B scenario_distinct_keys visited scenario_B_rejected run saved drop none
  show ?thesis
    by simp
qed

text \<open>
  With two keys of one name in a directory a group is not visited: \<open>Get\<close> returns one
  object for the name. Beside a canvas \<open>A\<close> the directory \<open>A\<close> is not visited: the
  canvas is rendered twice and the canvas \<open>h\<close> of the directory is not rendered.
\<close>

lemma shadow_hierarchy:
  "in_hierarchy (TFile ''run1.root'' shadow_keys)
     (subdir (TFile ''run1.root'' shadow_keys) ''A'' [(''h'', TCanvas ''h'')])"
  by (rule hier_sub [OF hier_top]) (simp add: TFile_def shadow_keys_def)

lemma shadow_run:
  "visit_of (subdir (TFile ''run1.root'' shadow_keys) ''A'' [(''h'', TCanvas ''h'')])
     \<notin> set (walk True (TFile ''run1.root'' shadow_keys))
   \<and> map fst (walk True (TFile ''run1.root'' shadow_keys)) = [''run1.root:/'']
   \<and> map_sum id (\<lambda>(n, w). (n, map snd (saved w)))
       (write_root_file literal_lib scenario_index empty_world (TFile ''run1.root'' shadow_keys) [])
     = Inr (2, [''run1/A.eps'', ''run1/A.eps''])"
  by code_simp

theorem walk_visits_every_group_counterexample:
  "in_hierarchy (TFile ''run1.root'' shadow_keys)
     (subdir (TFile ''run1.root'' shadow_keys) ''A'' [(''h'', TCanvas ''h'')])
   \<and> visit_of (subdir (TFile ''run1.root'' shadow_keys) ''A'' [(''h'', TCanvas ''h'')])
     \<notin> set (walk True (TFile ''run1.root'' shadow_keys))
   \<and> map fst (walk True (TFile ''run1.root'' shadow_keys)) = [''run1.root:/'']
   \<and> map_sum id (\<lambda>(n, w). (n, map snd (saved w)))
       (write_root_file literal_lib scenario_index empty_world (TFile ''run1.root'' shadow_keys) [])
     = Inr (2, [''run1/A.eps'', ''run1/A.eps''])"
  using shadow_hierarchy shadow_run by simp

end
